theory Spec2Isabelle
  imports Main "HOL-Library.Multiset"
begin

section \<open>Data of the position stream\<close>

text \<open>
  A raw transaction (\<open>ParsedTransactionWithMeta\<close> of the Solana library) is opaque to the
  stream: only the length of a batch is ever read.
\<close>

type_synonym ParsedTransactionWithMeta = nat

text \<open>
  A classified transaction. The stream reads two fields, \<open>position\<close> and \<open>open\<close>
  (here \<open>is_open\<close>); \<open>is_close\<close> stands for the rest of the record, which only the
  position aggregate looks at.
\<close>

record MeteoraPositionTransaction =
  position :: string
  is_open :: bool
  is_close :: bool

text \<open>The position aggregate: the stream reads \<open>isClosed\<close> only.\<close>

record MeteoraPosition =
  isClosed :: bool
  unrealized :: "int option"

datatype jserror = TypeError | Failure string

text \<open>What the transaction source delivers in a \<open>data\<close> event.\<close>

datatype ParsedTransactionStreamData =
    SignatureCount int
  | AllSignaturesFound
  | ParsedTransaction "ParsedTransactionWithMeta list"

text \<open>
  What the stream hands to \<open>super.push\<close>: a progress signal of the source forwarded
  verbatim, or one of the three records declared in this file. The terminal \<open>null\<close> is
  \<open>None\<close> of the option type.
\<close>

datatype MeteoraPositionStreamData =
    Forwarded ParsedTransactionStreamData
  | TransactionCount nat
  | PositionAndTransactions "MeteoraPositionTransaction list" MeteoraPosition
  | UpdatingOpenPositions nat

text \<open>
  The functions of \<open>MeteoraPosition.ts\<close> that \<open>_createPosition\<close> calls are parameters
  of the model.
\<close>

record collaborators =
  invertAndFillMissingFees ::
    "MeteoraPositionTransaction list \<Rightarrow> MeteoraPositionTransaction list"
  newMeteoraPosition :: "MeteoraPositionTransaction list \<Rightarrow> MeteoraPosition"

subsection \<open>The batch processor\<close>

text \<open>
  Modelled from the spec: \<open>AsyncBatchProcessor\<close> of \<open>util.ts\<close> is missing. It is a FIFO
  queue of batches with at most one transform in flight; \<open>next\<close> is a non-blocking poll
  that answers \<open>{0, []}\<close> at once when there is nothing it may start, and otherwise
  takes the oldest batch and starts the transform on it; \<open>isComplete\<close> holds iff the
  queue is empty and no transform is in flight.
\<close>

record AsyncBatchProcessor =
  queue :: "ParsedTransactionWithMeta list list"
  inFlight :: bool

definition addBatch ::
  "ParsedTransactionWithMeta list \<Rightarrow> AsyncBatchProcessor \<Rightarrow> AsyncBatchProcessor" where
  "addBatch b p = p\<lparr>queue := queue p @ [b]\<rparr>"

definition isComplete :: "AsyncBatchProcessor \<Rightarrow> bool" where
  "isComplete p \<longleftrightarrow> queue p = [] \<and> \<not> inFlight p"

definition next_start ::
  "AsyncBatchProcessor \<Rightarrow> (ParsedTransactionWithMeta list \<times> AsyncBatchProcessor) option" where
  "next_start p =
     (if inFlight p then None
      else case queue p of
             [] \<Rightarrow> None
           | b # bs \<Rightarrow> Some (b, p\<lparr>queue := bs, inFlight := True\<rparr>))"

subsection \<open>Suspended computations\<close>

text \<open>
  Every \<open>await\<close> of the source is a point where the running function suspends and
  another handler may run. A suspended function is a task:
  \<^item> \<open>AwaitPairs\<close>: \<open>_init\<close> at \<open>await getDlmmPairs()\<close>;
  \<^item> \<open>AwaitTransform fromEnd b\<close>: \<open>_processBatch\<close> at \<open>await this._processor.next()\<close>,
    the transform running on batch \<open>b\<close>;
  \<^item> \<open>AwaitNext fromEnd n out\<close>: \<open>_processBatch\<close> at the same \<open>await\<close>, the result
    \<open>{inputCount: n, output: out}\<close> ready;
  \<^item> \<open>AwaitUpdate pid k txs pos\<close>: \<open>_updateOpenPosition\<close> at
    \<open>await updateOpenPosition(connection, position)\<close>, started by the \<open>_processBatch\<close>
    numbered \<open>pid\<close> for position key \<open>k\<close>;
  \<^item> \<open>AwaitCreated pid k\<close>: \<open>_createPosition\<close> at \<open>await this._updateOpenPosition(...)\<close>,
    which has returned; the \<open>splice\<close> is still to run;
  \<^item> \<open>AwaitAll pid fromEnd n\<close>: \<open>_processBatch\<close> at \<open>await Promise.all(...)\<close>;
  \<^item> \<open>AwaitDelay\<close>: the \<open>end\<close> handler of the source inside its loop, at
    \<open>await this._processBatch(...); await delay(0)\<close>.
  \<open>fromEnd\<close> tells whether \<open>_processBatch\<close> was called by the loop of the \<open>end\<close>
  handler (which awaits it) or by \<open>_parseTransactions\<close> (which does not).
\<close>

datatype task =
    AwaitPairs
  | AwaitTransform bool "ParsedTransactionWithMeta list"
  | AwaitNext bool nat "MeteoraPositionTransaction list"
  | AwaitUpdate nat string "MeteoraPositionTransaction list" MeteoraPosition
  | AwaitCreated nat string
  | AwaitAll nat bool nat
  | AwaitDelay

subsection \<open>The stream object\<close>

text \<open>
  The private fields of \<open>MeteoraPositionStream\<close> (\<open>_done\<close> is \<open>done_flag\<close>), then what
  the base class and the runtime hold: \<open>pushed\<close> is the sequence of arguments of
  \<open>super.push\<close>, \<open>errorEvents\<close> the arguments of \<open>emit("error", _)\<close>, \<open>tasks\<close> the
  suspended functions, \<open>unhandled\<close> the rejections no handler caught, \<open>nextId\<close> numbers
  the \<open>Promise.all\<close> calls. \<open>transactionStream\<close> is \<open>None\<close> until \<open>_init\<close> assigns it;
  \<open>Some c\<close> holds whether the source's own \<open>cancel\<close> was called.
\<close>

record MeteoraPositionStream =
  transactionStream :: "bool option"
  receivedAllTransactions :: bool
  transactionsReceivedCount :: int
  transactionsProcessedCount :: int
  transactions :: "MeteoraPositionTransaction list"
  processor :: AsyncBatchProcessor
  done_flag :: bool
  cancelling :: bool
  cancelled :: bool
  pendingPositions :: "string list"
  pushed :: "MeteoraPositionStreamData option list"
  errorEvents :: "jserror list"
  tasks :: "task list"
  unhandled :: "jserror list"
  nextId :: nat

definition constructor :: MeteoraPositionStream where
  "constructor =
     \<lparr> transactionStream = None,
       receivedAllTransactions = False,
       transactionsReceivedCount = 0,
       transactionsProcessedCount = 0,
       transactions = [],
       processor = \<lparr> queue = [], inFlight = False \<rparr>,
       done_flag = False,
       cancelling = False,
       cancelled = False,
       pendingPositions = [],
       pushed = [],
       errorEvents = [],
       tasks = [AwaitPairs],
       unhandled = [],
       nextId = 0 \<rparr>"

section \<open>The methods\<close>

definition cancel :: "MeteoraPositionStream \<Rightarrow> jserror + MeteoraPositionStream" where
  "cancel s =
     (case transactionStream s of
        None \<Rightarrow> Inl TypeError
      | Some c \<Rightarrow> Inr (s\<lparr>transactionStream := Some True, cancelling := True\<rparr>))"

definition super_push ::
  "MeteoraPositionStreamData option \<Rightarrow> MeteoraPositionStream \<Rightarrow> MeteoraPositionStream" where
  "super_push chunk s = s\<lparr>pushed := pushed s @ [chunk]\<rparr>"

definition push ::
  "MeteoraPositionStreamData option \<Rightarrow> MeteoraPositionStream \<Rightarrow> MeteoraPositionStream" where
  "push chunk s =
     (if pendingPositions s \<noteq> [] then super_push chunk s
      else if cancelling s \<and> \<not> cancelled s then super_push None (s\<lparr>cancelled := True\<rparr>)
      else if cancelled s then s
      else super_push chunk s)"

definition finish :: "MeteoraPositionStream \<Rightarrow> MeteoraPositionStream" where
  "finish s =
     (if receivedAllTransactions s
         \<and> transactionsReceivedCount s = transactionsProcessedCount s
         \<and> \<not> done_flag s
      then push None (s\<lparr>done_flag := True\<rparr>)
      else s)"

definition spawn :: "task \<Rightarrow> MeteoraPositionStream \<Rightarrow> MeteoraPositionStream" where
  "spawn t s = s\<lparr>tasks := tasks s @ [t]\<rparr>"

text \<open>
  \<open>this._pendingPositions.splice(this._pendingPositions.indexOf(k), 1)\<close>: the first
  occurrence of \<open>k\<close> goes; when there is none, \<open>indexOf\<close> is \<open>-1\<close> and \<open>splice(-1, 1)\<close>
  removes the last element.
\<close>

definition splice_indexOf :: "string \<Rightarrow> string list \<Rightarrow> string list" where
  "splice_indexOf k xs = (if k \<in> set xs then remove1 k xs else butlast xs)"

definition splicePending :: "string \<Rightarrow> MeteoraPositionStream \<Rightarrow> MeteoraPositionStream" where
  "splicePending k s = s\<lparr>pendingPositions := splice_indexOf k (pendingPositions s)\<rparr>"

text \<open>
  \<open>_createPosition\<close> up to its first suspension: for a closed aggregate it runs to its
  end, for an open one it stops inside \<open>_updateOpenPosition\<close>.
\<close>

definition createPosition ::
  "collaborators \<Rightarrow> nat \<Rightarrow> MeteoraPositionTransaction \<Rightarrow> MeteoraPositionStream
     \<Rightarrow> MeteoraPositionStream" where
  "createPosition E pid positionTransaction s =
     (let s1 = s\<lparr>pendingPositions := pendingPositions s @ [position positionTransaction]\<rparr>;
          newPositionTransactions =
            invertAndFillMissingFees E
              (filter (\<lambda>transaction. position transaction = position positionTransaction)
                 (transactions s1));
          newPosition = newMeteoraPosition E newPositionTransactions
      in if isClosed newPosition
         then splicePending (position positionTransaction)
                (push (Some (PositionAndTransactions newPositionTransactions newPosition)) s1)
         else spawn (AwaitUpdate pid (position positionTransaction)
                       newPositionTransactions newPosition) s1)"

text \<open>\<open>_processBatch\<close> from its call to \<open>await this._processor.next()\<close>.\<close>

definition processBatch :: "bool \<Rightarrow> MeteoraPositionStream \<Rightarrow> MeteoraPositionStream" where
  "processBatch fromEnd s =
     (if \<not> cancelling s \<and> \<not> cancelled s then
        (case next_start (processor s) of
           None \<Rightarrow> spawn (AwaitNext fromEnd 0 []) s
         | Some (b, p) \<Rightarrow> spawn (AwaitTransform fromEnd b) (s\<lparr>processor := p\<rparr>))
      else if fromEnd then spawn AwaitDelay s
      else s)"

text \<open>The return of \<open>_processBatch\<close>: the loop of the \<open>end\<close> handler goes on to its delay.\<close>

definition processBatch_return :: "bool \<Rightarrow> MeteoraPositionStream \<Rightarrow> MeteoraPositionStream" where
  "processBatch_return fromEnd s = (if fromEnd then spawn AwaitDelay s else s)"

text \<open>The last two statements: \<open>_transactionsProcessedCount += inputCount; this._finish()\<close>.\<close>

definition processBatch_count :: "nat \<Rightarrow> MeteoraPositionStream \<Rightarrow> MeteoraPositionStream" where
  "processBatch_count inputCount s =
     finish (s\<lparr>transactionsProcessedCount := transactionsProcessedCount s + int inputCount\<rparr>)"

text \<open>\<open>_processBatch\<close> from the result of \<open>next\<close> to \<open>await Promise.all\<close> or to its end.\<close>

definition processBatch_resume ::
  "collaborators \<Rightarrow> bool \<Rightarrow> nat \<Rightarrow> MeteoraPositionTransaction list \<Rightarrow> MeteoraPositionStream
     \<Rightarrow> MeteoraPositionStream" where
  "processBatch_resume E fromEnd inputCount output s =
     (if inputCount > 0 then
        (if output \<noteq> [] then
           (let s1 = s\<lparr>transactions := transactions s @ output\<rparr>;
                s2 = push (Some (TransactionCount (length (transactions s1)))) s1;
                pid = nextId s2;
                s3 = fold (createPosition E pid) (filter is_open output)
                       (s2\<lparr>nextId := Suc pid\<rparr>)
            in spawn (AwaitAll pid fromEnd inputCount) s3)
         else processBatch_return fromEnd (processBatch_count inputCount s))
      else processBatch_return fromEnd (finish s))"

text \<open>The loop of the \<open>end\<close> handler, from its test.\<close>

definition endLoop :: "MeteoraPositionStream \<Rightarrow> MeteoraPositionStream" where
  "endLoop s = (if \<not> isComplete (processor s) then processBatch True s else s)"

definition parseTransactions ::
  "ParsedTransactionStreamData \<Rightarrow> MeteoraPositionStream \<Rightarrow> MeteoraPositionStream" where
  "parseTransactions data s =
     (case data of
        ParsedTransaction b \<Rightarrow> processBatch False (s\<lparr>processor := addBatch b (processor s)\<rparr>)
      | AllSignaturesFound \<Rightarrow>
          finish (push (Some (Forwarded data)) (s\<lparr>receivedAllTransactions := True\<rparr>))
      | SignatureCount n \<Rightarrow>
          finish (push (Some (Forwarded data)) (s\<lparr>transactionsReceivedCount := n\<rparr>)))"

section \<open>Executions\<close>

text \<open>
  How a suspended function is resumed: an \<open>await\<close> of the stream's own functions just
  continues, a collaborator resolves with a value or rejects.
\<close>

datatype outcome =
    Continue
  | PairsFetched
  | Classified "MeteoraPositionTransaction list"
  | Augmented MeteoraPosition
  | Rejected jserror
  | TransformRejected jserror bool

definition is_child :: "nat \<Rightarrow> task \<Rightarrow> bool" where
  "is_child pid t =
     (case t of AwaitUpdate p _ _ _ \<Rightarrow> p = pid | AwaitCreated p _ \<Rightarrow> p = pid | _ \<Rightarrow> False)"

definition is_all :: "nat \<Rightarrow> task \<Rightarrow> bool" where
  "is_all pid t = (case t of AwaitAll p _ _ \<Rightarrow> p = pid | _ \<Rightarrow> False)"

definition unhandledRejection :: "jserror \<Rightarrow> MeteoraPositionStream \<Rightarrow> MeteoraPositionStream" where
  "unhandledRejection e s = s\<lparr>unhandled := unhandled s @ [e]\<rparr>"

text \<open>
  A rejecting \<open>_createPosition\<close> rejects the \<open>Promise.all\<close> it belongs to, if that is
  still pending, and with it \<open>_processBatch\<close>, whose promise nobody handles.
\<close>

definition rejectAll :: "nat \<Rightarrow> jserror \<Rightarrow> MeteoraPositionStream \<Rightarrow> MeteoraPositionStream" where
  "rejectAll pid e s =
     (if list_ex (is_all pid) (tasks s)
      then unhandledRejection e (s\<lparr>tasks := filter (\<lambda>t. \<not> is_all pid t) (tasks s)\<rparr>)
      else s)"

text \<open>
  \<open>resume E t r s\<close>: task \<open>t\<close>, already taken out of \<open>tasks s\<close>, continues with outcome
  \<open>r\<close>; \<open>None\<close> when \<open>t\<close> cannot continue that way. After a rejected transform the spec
  leaves the processor's state open: \<open>TransformRejected e b\<close> says whether the processor
  still counts a transform as in flight.
\<close>

fun resume ::
  "collaborators \<Rightarrow> task \<Rightarrow> outcome \<Rightarrow> MeteoraPositionStream \<Rightarrow> MeteoraPositionStream option" where
  "resume E AwaitPairs PairsFetched s = Some (s\<lparr>transactionStream := Some False\<rparr>)"
| "resume E AwaitPairs (Rejected e) s = Some (unhandledRejection e s)"
| "resume E (AwaitTransform fromEnd b) (Classified out) s =
     Some (spawn (AwaitNext fromEnd (length b) out)
             (s\<lparr>processor := (processor s)\<lparr>inFlight := False\<rparr>\<rparr>))"
| "resume E (AwaitTransform fromEnd b) (TransformRejected e stuck) s =
     Some (unhandledRejection e (s\<lparr>processor := (processor s)\<lparr>inFlight := stuck\<rparr>\<rparr>))"
| "resume E (AwaitNext fromEnd n out) Continue s = Some (processBatch_resume E fromEnd n out s)"
| "resume E (AwaitUpdate pid k txs pos) (Augmented pos') s =
     Some (spawn (AwaitCreated pid k) (push (Some (PositionAndTransactions txs pos')) s))"
| "resume E (AwaitUpdate pid k txs pos) (Rejected e) s = Some (rejectAll pid e s)"
| "resume E (AwaitCreated pid k) Continue s = Some (splicePending k s)"
| "resume E (AwaitAll pid fromEnd n) Continue s =
     (if list_ex (is_child pid) (tasks s) then None
      else Some (processBatch_return fromEnd (processBatch_count n s)))"
| "resume E AwaitDelay Continue s = Some (endLoop s)"
| "resume E _ _ s = None"

text \<open>
  What can happen to the stream: its owner calls \<open>cancel\<close>, the source emits \<open>data\<close>,
  \<open>end\<close> or \<open>error\<close> (only once \<open>_init\<close> has built the source), or a suspended function
  continues.
\<close>

datatype action =
    Cancel
  | SourceData ParsedTransactionStreamData
  | SourceEnd
  | SourceError jserror
  | Resume nat outcome

definition step :: "collaborators \<Rightarrow> action \<Rightarrow> MeteoraPositionStream \<Rightarrow> MeteoraPositionStream" where
  "step E a s =
     (case a of
        Cancel \<Rightarrow> (case cancel s of Inl e \<Rightarrow> s | Inr s' \<Rightarrow> s')
      | SourceData d \<Rightarrow> (if transactionStream s = None then s else parseTransactions d s)
      | SourceEnd \<Rightarrow>
          (if transactionStream s = None then s
           else endLoop (s\<lparr>receivedAllTransactions := True\<rparr>))
      | SourceError e \<Rightarrow>
          (if transactionStream s = None then s else s\<lparr>errorEvents := errorEvents s @ [e]\<rparr>)
      | Resume i r \<Rightarrow>
          (if i < length (tasks s)
           then (case resume E (tasks s ! i) r
                        (s\<lparr>tasks := take i (tasks s) @ drop (Suc i) (tasks s)\<rparr>) of
                   None \<Rightarrow> s
                 | Some s' \<Rightarrow> s')
           else s))"

definition run ::
  "collaborators \<Rightarrow> action list \<Rightarrow> MeteoraPositionStream \<Rightarrow> MeteoraPositionStream" where
  "run E as s = fold (step E) as s"

text \<open>
  An aggregate for concrete executions: the log as it is, closed iff it holds a closing
  transaction.
\<close>

definition plain :: collaborators where
  "plain = \<lparr> invertAndFillMissingFees = (\<lambda>txs. txs),
             newMeteoraPosition =
               (\<lambda>txs. \<lparr> isClosed = list_ex is_close txs, unrealized = None \<rparr>) \<rparr>"

section \<open>Measures of an execution\<close>

text \<open>
  The position keys of the finalize steps under way, one per \<open>_createPosition\<close> that has
  pushed its key and not yet spliced it.
\<close>

definition task_key :: "task \<Rightarrow> string list" where
  "task_key t = (case t of AwaitUpdate _ k _ _ \<Rightarrow> [k] | AwaitCreated _ k \<Rightarrow> [k] | _ \<Rightarrow> [])"

definition task_keys :: "task list \<Rightarrow> string list" where
  "task_keys ts = concat (map task_key ts)"

text \<open>
  \<open>is_update\<close>: a finalize step is waiting for the augmenter. \<open>is_record\<close>: a pushed
  chunk is a \<open>positionAndTransactions\<close> record. \<open>is_updating\<close>: it is an
  \<open>updatingOpenPositions\<close> record.
\<close>

definition is_update :: "task \<Rightarrow> bool" where
  "is_update t = (case t of AwaitUpdate _ _ _ _ \<Rightarrow> True | _ \<Rightarrow> False)"

definition is_record :: "MeteoraPositionStreamData option \<Rightarrow> bool" where
  "is_record c = (case c of Some (PositionAndTransactions _ _) \<Rightarrow> True | _ \<Rightarrow> False)"

definition is_updating :: "MeteoraPositionStreamData option \<Rightarrow> bool" where
  "is_updating c = (case c of Some (UpdatingOpenPositions _) \<Rightarrow> True | _ \<Rightarrow> False)"

text \<open>
  Every finalize step under way has its key in \<open>_pendingPositions\<close>.
\<close>

definition pending_covers :: "MeteoraPositionStream \<Rightarrow> bool" where
  "pending_covers s \<longleftrightarrow> mset (task_keys (tasks s)) \<subseteq># mset (pendingPositions s)"

text \<open>
  Open transactions in the log that have neither a record pushed nor an augmentation
  under way.
\<close>

definition balance :: "MeteoraPositionStream \<Rightarrow> int" where
  "balance s = int (length (filter is_open (transactions s)))
                 - int (length (filter is_record (pushed s)))
                 - int (length (filter is_update (tasks s)))"

text \<open>
  An action in which the fetch of the pairs or the augmenter rejects.
\<close>

definition is_rejection :: "action \<Rightarrow> bool" where
  "is_rejection a = (case a of Resume _ (Rejected _) \<Rightarrow> True | _ \<Rightarrow> False)"

text \<open>
  The raw transactions a suspended \<open>_processBatch\<close> will add to
  \<open>_transactionsProcessedCount\<close> when it ends.
\<close>

definition task_count :: "task \<Rightarrow> nat" where
  "task_count t =
     (case t of AwaitTransform _ b \<Rightarrow> length b | AwaitNext _ n _ \<Rightarrow> n | AwaitAll _ _ n \<Rightarrow> n
      | _ \<Rightarrow> 0)"

text \<open>
  The \<open>Promise.all\<close> a finalize step belongs to, and the one a \<open>_processBatch\<close> waits
  for.
\<close>

definition child_id :: "task \<Rightarrow> nat list" where
  "child_id t = (case t of AwaitUpdate p _ _ _ \<Rightarrow> [p] | AwaitCreated p _ \<Rightarrow> [p] | _ \<Rightarrow> [])"

definition all_id :: "task \<Rightarrow> nat list" where
  "all_id t = (case t of AwaitAll p _ _ \<Rightarrow> [p] | _ \<Rightarrow> [])"

definition child_ids :: "task list \<Rightarrow> nat set" where
  "child_ids ts = set (concat (map child_id ts))"

definition all_ids :: "task list \<Rightarrow> nat set" where
  "all_ids ts = set (concat (map all_id ts))"

text \<open>
  A \<open>_processBatch\<close> reaches \<open>Promise.all\<close> only with a positive \<open>inputCount\<close>.
\<close>

definition counted :: "task \<Rightarrow> bool" where
  "counted t = (case t of AwaitAll _ _ n \<Rightarrow> n > 0 | _ \<Rightarrow> True)"

text \<open>
  Processed transactions, plus those queued or held by a suspended \<open>_processBatch\<close>.
\<close>

definition outstanding :: "MeteoraPositionStream \<Rightarrow> int" where
  "outstanding s = transactionsProcessedCount s
                     + int (sum_list (map length (queue (processor s))))
                     + int (sum_list (map task_count (tasks s)))"

text \<open>
  \<open>settled s d\<close>, for \<open>d\<close> raw transactions delivered by the source: none is counted
  twice, and as long as none was lost to a rejection, every finalize step under way
  belongs to a pending \<open>Promise.all\<close> and the pending keys are exactly theirs.
\<close>

definition settled :: "MeteoraPositionStream \<Rightarrow> int \<Rightarrow> bool" where
  "settled s d \<longleftrightarrow>
     outstanding s \<le> d \<and> list_all counted (tasks s)
     \<and> (outstanding s = d \<longrightarrow>
          child_ids (tasks s) \<subseteq> all_ids (tasks s)
          \<and> mset (pendingPositions s) = mset (task_keys (tasks s)))"

text \<open>
  The terminal signals handed to \<open>super.push\<close> so far.
\<close>

definition terminals :: "MeteoraPositionStream \<Rightarrow> nat" where
  "terminals s = length (filter (\<lambda>c. c = None) (pushed s))"

text \<open>
  Without cancellation the stream has pushed one terminal signal when it is done and
  none before.
\<close>

definition single_end :: "MeteoraPositionStream \<Rightarrow> bool" where
  "single_end s \<longleftrightarrow>
     \<not> cancelling s \<and> \<not> cancelled s \<and> terminals s = (if done_flag s then 1 else 0)"

text \<open>
  \<open>checked s s'\<close>, for a handler that starts in \<open>s\<close> without cancellation and ends in
  \<open>s'\<close>: it has pushed no terminal signal, or it has pushed one, \<open>_done\<close> was unset
  before, and the three conditions of \<open>_finish\<close> hold in \<open>s'\<close>.
\<close>

definition checked :: "MeteoraPositionStream \<Rightarrow> MeteoraPositionStream \<Rightarrow> bool" where
  "checked s s' \<longleftrightarrow>
     \<not> cancelling s' \<and> \<not> cancelled s'
     \<and> (terminals s' = terminals s \<and> done_flag s' = done_flag s
        \<or> terminals s' = Suc (terminals s) \<and> \<not> done_flag s \<and> done_flag s'
          \<and> receivedAllTransactions s'
          \<and> transactionsReceivedCount s' = transactionsProcessedCount s')"

text \<open>
  How often the stream may have ended: once through \<open>_finish\<close>, once through rule 2 of
  the gate.
\<close>

definition ended_by :: "MeteoraPositionStream \<Rightarrow> nat" where
  "ended_by s = (if done_flag s then 1 else 0) + (if cancelled s then 1 else 0)"

subsection \<open>The base class\<close>



subsection \<open>What a batch drain is to do\<close>

text \<open>
  In the words of the spec: for every classified transaction of the output whose
  \<open>open\<close> is set, every transaction in the log sharing its key is collected and the
  aggregate built; a closed aggregate is emitted at once (\<open>closed_records\<close>), an open
  one goes to the augmenter (\<open>augmentations\<close>).
\<close>

definition aggregate ::
  "collaborators \<Rightarrow> MeteoraPositionTransaction list \<Rightarrow> string \<Rightarrow> MeteoraPositionTransaction list" where
  "aggregate E log k = invertAndFillMissingFees E (filter (\<lambda>x. position x = k) log)"

definition closes :: "collaborators \<Rightarrow> MeteoraPositionTransaction list \<Rightarrow> string \<Rightarrow> bool" where
  "closes E log k = isClosed (newMeteoraPosition E (aggregate E log k))"

definition closed_records ::
  "collaborators \<Rightarrow> MeteoraPositionTransaction list \<Rightarrow> MeteoraPositionTransaction list
     \<Rightarrow> MeteoraPositionStreamData option list" where
  "closed_records E log out =
     map (\<lambda>t. Some (PositionAndTransactions (aggregate E log (position t))
                      (newMeteoraPosition E (aggregate E log (position t)))))
       (filter (\<lambda>t. is_open t \<and> closes E log (position t)) out)"

definition augmentations ::
  "collaborators \<Rightarrow> nat \<Rightarrow> MeteoraPositionTransaction list \<Rightarrow> MeteoraPositionTransaction list
     \<Rightarrow> task list" where
  "augmentations E pid log out =
     map (\<lambda>t. AwaitUpdate pid (position t) (aggregate E log (position t))
                 (newMeteoraPosition E (aggregate E log (position t))))
       (filter (\<lambda>t. is_open t \<and> \<not> closes E log (position t)) out)"

text \<open>
  \<open>built_for E log txs\<close>: the transactions \<open>txs\<close> of a record are those sharing the
  key of an open transaction of the log, collected from the log as it stood at some
  moment. \<open>traced\<close>: this holds for every record pushed and every augmentation under
  way.
\<close>

definition built_for ::
  "collaborators \<Rightarrow> MeteoraPositionTransaction list \<Rightarrow> MeteoraPositionTransaction list \<Rightarrow> bool" where
  "built_for E log txs =
     list_ex (\<lambda>n. list_ex (\<lambda>t. is_open t \<and> txs = aggregate E (take n log) (position t))
                     (take n log))
       [0..<Suc (length log)]"

definition record_ok ::
  "collaborators \<Rightarrow> MeteoraPositionTransaction list \<Rightarrow> MeteoraPositionStreamData option \<Rightarrow> bool" where
  "record_ok E log c =
     (case c of Some (PositionAndTransactions txs _) \<Rightarrow> built_for E log txs | _ \<Rightarrow> True)"

definition task_ok ::
  "collaborators \<Rightarrow> MeteoraPositionTransaction list \<Rightarrow> task \<Rightarrow> bool" where
  "task_ok E log u =
     (case u of AwaitUpdate _ _ txs _ \<Rightarrow> built_for E log txs | _ \<Rightarrow> True)"

definition traced :: "collaborators \<Rightarrow> MeteoraPositionStream \<Rightarrow> bool" where
  "traced E s \<longleftrightarrow>
     list_all (record_ok E (transactions s)) (pushed s)
     \<and> list_all (task_ok E (transactions s)) (tasks s)"

subsection \<open>What the source is expected to do\<close>

text \<open>
  The stream does not check what the source sends. Two of its properties hold only for
  a source that counts a signature before it delivers the transaction: a reported count
  is never below the number \<open>d\<close> of raw transactions delivered so far, and a batch never
  takes the delivered number above the count reported last, which the stream keeps in
  \<open>_transactionsReceivedCount\<close>.
\<close>

definition batch_size :: "action \<Rightarrow> int" where
  "batch_size a = (case a of SourceData (ParsedTransaction b) \<Rightarrow> int (length b) | _ \<Rightarrow> 0)"

definition allowed :: "int \<Rightarrow> action \<Rightarrow> MeteoraPositionStream \<Rightarrow> bool" where
  "allowed d a s =
     (case a of
        SourceData (SignatureCount n) \<Rightarrow> d \<le> n
      | SourceData (ParsedTransaction b) \<Rightarrow> d + int (length b) \<le> transactionsReceivedCount s
      | _ \<Rightarrow> True)"

fun conforms ::
  "collaborators \<Rightarrow> int \<Rightarrow> action list \<Rightarrow> MeteoraPositionStream \<Rightarrow> bool" where
  "conforms E d [] s = True"
| "conforms E d (a # as) s =
     (allowed d a s \<and> conforms E (d + batch_size a) as (step E a s))"

subsection \<open>Concrete executions\<close>

definition openP1 :: MeteoraPositionTransaction where
  "openP1 = \<lparr> position = ''P1'', is_open = True, is_close = False \<rparr>"

definition closeP1 :: MeteoraPositionTransaction where
  "closeP1 = \<lparr> position = ''P1'', is_open = False, is_close = True \<rparr>"

definition openP2 :: MeteoraPositionTransaction where
  "openP2 = \<lparr> position = ''P2'', is_open = True, is_close = False \<rparr>"

definition depositP3 :: MeteoraPositionTransaction where
  "depositP3 = \<lparr> position = ''P3'', is_open = False, is_close = False \<rparr>"

text \<open>
  Scenario A of the spec up to the last continuation, and scenario B.
\<close>

definition scenarioA :: "action list" where
  "scenarioA =
     [Resume 0 PairsFetched, SourceData (SignatureCount 2), SourceData AllSignaturesFound,
      SourceData (ParsedTransaction [1, 2]), Resume 0 (Classified [openP1, closeP1]),
      Resume 0 Continue]"

definition scenarioB :: "action list" where
  "scenarioB =
     [Resume 0 PairsFetched, SourceData (SignatureCount 1), SourceData AllSignaturesFound,
      SourceData (ParsedTransaction [1]), Resume 0 (Classified [openP1]), Resume 0 Continue,
      Resume 0 (Augmented \<lparr> isClosed = False, unrealized = Some 5 \<rparr>), Resume 1 Continue,
      Resume 0 Continue]"


definition cancelThenAugment :: "action list" where
  "cancelThenAugment =
     [Resume 0 PairsFetched, SourceData (SignatureCount 1),
      SourceData (ParsedTransaction [1]), Cancel,
      Resume 0 (Classified [openP1]), Resume 0 Continue]"

text \<open>
  The classifier rejects the second batch.
\<close>

definition classifierFails :: "action list" where
  "classifierFails =
     [Resume 0 PairsFetched, SourceData (SignatureCount 2),
      SourceData (ParsedTransaction [1]), Resume 0 (Classified []), Resume 0 Continue,
      SourceData (ParsedTransaction [2]),
      Resume 0 (TransformRejected (Failure ''classifier'') False)]"

text \<open>
  A transaction of a position whose opening transaction is not in the history.
\<close>

definition noOpenTransaction :: "action list" where
  "noOpenTransaction =
     [Resume 0 PairsFetched, SourceData (SignatureCount 1), SourceData AllSignaturesFound,
      SourceData (ParsedTransaction [1]), Resume 0 (Classified [depositP3]),
      Resume 0 Continue, Resume 0 Continue]"

text \<open>
  A source that delivers a batch before it has reported a count.
\<close>

definition batchBeforeCount :: "action list" where
  "batchBeforeCount =
     [Resume 0 PairsFetched, SourceData (ParsedTransaction [1]), Resume 0 (Classified []),
      Resume 0 Continue]"

definition endWhilePending :: "action list" where
  "endWhilePending =
     [Resume 0 PairsFetched, SourceData (ParsedTransaction [1]),
      Resume 0 (Classified [openP1]), Resume 0 Continue, SourceData AllSignaturesFound]"


text \<open>
  Two open positions in one batch.
\<close>

definition twoPending :: "action list" where
  "twoPending =
     [Resume 0 PairsFetched, SourceData (SignatureCount 2),
      SourceData (ParsedTransaction [1, 2]), Resume 0 (Classified [openP1, openP2]),
      Resume 0 Continue]"

section \<open>What each method leaves alone\<close>

lemma super_push_fields [simp]:
  "transactionStream (super_push c s) = transactionStream s"
  "receivedAllTransactions (super_push c s) = receivedAllTransactions s"
  "transactionsReceivedCount (super_push c s) = transactionsReceivedCount s"
  "transactionsProcessedCount (super_push c s) = transactionsProcessedCount s"
  "transactions (super_push c s) = transactions s"
  "processor (super_push c s) = processor s"
  "done_flag (super_push c s) = done_flag s"
  "cancelling (super_push c s) = cancelling s"
  "cancelled (super_push c s) = cancelled s"
  "pendingPositions (super_push c s) = pendingPositions s"
  "pushed (super_push c s) = pushed s @ [c]"
  "errorEvents (super_push c s) = errorEvents s"
  "tasks (super_push c s) = tasks s"
  "unhandled (super_push c s) = unhandled s"
  "nextId (super_push c s) = nextId s"
  by (simp_all add: super_push_def)

lemma push_fields [simp]:
  "transactionStream (push c s) = transactionStream s"
  "receivedAllTransactions (push c s) = receivedAllTransactions s"
  "transactionsReceivedCount (push c s) = transactionsReceivedCount s"
  "transactionsProcessedCount (push c s) = transactionsProcessedCount s"
  "transactions (push c s) = transactions s"
  "processor (push c s) = processor s"
  "done_flag (push c s) = done_flag s"
  "cancelling (push c s) = cancelling s"
  "pendingPositions (push c s) = pendingPositions s"
  "errorEvents (push c s) = errorEvents s"
  "tasks (push c s) = tasks s"
  "unhandled (push c s) = unhandled s"
  "nextId (push c s) = nextId s"
  by (simp_all add: push_def)

lemma finish_fields [simp]:
  "transactionStream (finish s) = transactionStream s"
  "receivedAllTransactions (finish s) = receivedAllTransactions s"
  "transactionsReceivedCount (finish s) = transactionsReceivedCount s"
  "transactionsProcessedCount (finish s) = transactionsProcessedCount s"
  "transactions (finish s) = transactions s"
  "processor (finish s) = processor s"
  "cancelling (finish s) = cancelling s"
  "pendingPositions (finish s) = pendingPositions s"
  "errorEvents (finish s) = errorEvents s"
  "tasks (finish s) = tasks s"
  "unhandled (finish s) = unhandled s"
  "nextId (finish s) = nextId s"
  by (simp_all add: finish_def)

lemma spawn_fields [simp]:
  "transactionStream (spawn t s) = transactionStream s"
  "receivedAllTransactions (spawn t s) = receivedAllTransactions s"
  "transactionsReceivedCount (spawn t s) = transactionsReceivedCount s"
  "transactionsProcessedCount (spawn t s) = transactionsProcessedCount s"
  "transactions (spawn t s) = transactions s"
  "processor (spawn t s) = processor s"
  "done_flag (spawn t s) = done_flag s"
  "cancelling (spawn t s) = cancelling s"
  "cancelled (spawn t s) = cancelled s"
  "pendingPositions (spawn t s) = pendingPositions s"
  "pushed (spawn t s) = pushed s"
  "errorEvents (spawn t s) = errorEvents s"
  "tasks (spawn t s) = tasks s @ [t]"
  "unhandled (spawn t s) = unhandled s"
  "nextId (spawn t s) = nextId s"
  by (simp_all add: spawn_def)

lemma splicePending_fields [simp]:
  "transactionStream (splicePending k s) = transactionStream s"
  "receivedAllTransactions (splicePending k s) = receivedAllTransactions s"
  "transactionsReceivedCount (splicePending k s) = transactionsReceivedCount s"
  "transactionsProcessedCount (splicePending k s) = transactionsProcessedCount s"
  "transactions (splicePending k s) = transactions s"
  "processor (splicePending k s) = processor s"
  "done_flag (splicePending k s) = done_flag s"
  "cancelling (splicePending k s) = cancelling s"
  "cancelled (splicePending k s) = cancelled s"
  "pendingPositions (splicePending k s) = splice_indexOf k (pendingPositions s)"
  "pushed (splicePending k s) = pushed s"
  "errorEvents (splicePending k s) = errorEvents s"
  "tasks (splicePending k s) = tasks s"
  "unhandled (splicePending k s) = unhandled s"
  "nextId (splicePending k s) = nextId s"
  by (simp_all add: splicePending_def)

lemma unhandledRejection_fields [simp]:
  "transactionStream (unhandledRejection e s) = transactionStream s"
  "receivedAllTransactions (unhandledRejection e s) = receivedAllTransactions s"
  "transactionsReceivedCount (unhandledRejection e s) = transactionsReceivedCount s"
  "transactionsProcessedCount (unhandledRejection e s) = transactionsProcessedCount s"
  "transactions (unhandledRejection e s) = transactions s"
  "processor (unhandledRejection e s) = processor s"
  "done_flag (unhandledRejection e s) = done_flag s"
  "cancelling (unhandledRejection e s) = cancelling s"
  "cancelled (unhandledRejection e s) = cancelled s"
  "pendingPositions (unhandledRejection e s) = pendingPositions s"
  "pushed (unhandledRejection e s) = pushed s"
  "errorEvents (unhandledRejection e s) = errorEvents s"
  "tasks (unhandledRejection e s) = tasks s"
  "unhandled (unhandledRejection e s) = unhandled s @ [e]"
  "nextId (unhandledRejection e s) = nextId s"
  by (simp_all add: unhandledRejection_def)

lemma rejectAll_fields [simp]:
  "transactionStream (rejectAll pid e s) = transactionStream s"
  "receivedAllTransactions (rejectAll pid e s) = receivedAllTransactions s"
  "transactionsReceivedCount (rejectAll pid e s) = transactionsReceivedCount s"
  "transactionsProcessedCount (rejectAll pid e s) = transactionsProcessedCount s"
  "transactions (rejectAll pid e s) = transactions s"
  "processor (rejectAll pid e s) = processor s"
  "done_flag (rejectAll pid e s) = done_flag s"
  "cancelling (rejectAll pid e s) = cancelling s"
  "cancelled (rejectAll pid e s) = cancelled s"
  "pendingPositions (rejectAll pid e s) = pendingPositions s"
  "pushed (rejectAll pid e s) = pushed s"
  "errorEvents (rejectAll pid e s) = errorEvents s"
  "tasks (rejectAll pid e s) = filter (\<lambda>t. \<not> is_all pid t) (tasks s)"
  "nextId (rejectAll pid e s) = nextId s"
  by (auto simp add: rejectAll_def filter_id_conv list_ex_iff)

lemma createPosition_fields [simp]:
  "transactionStream (createPosition E pid t s) = transactionStream s"
  "receivedAllTransactions (createPosition E pid t s) = receivedAllTransactions s"
  "transactionsReceivedCount (createPosition E pid t s) = transactionsReceivedCount s"
  "transactionsProcessedCount (createPosition E pid t s) = transactionsProcessedCount s"
  "transactions (createPosition E pid t s) = transactions s"
  "processor (createPosition E pid t s) = processor s"
  "done_flag (createPosition E pid t s) = done_flag s"
  "cancelling (createPosition E pid t s) = cancelling s"
  "cancelled (createPosition E pid t s) = cancelled s"
  "errorEvents (createPosition E pid t s) = errorEvents s"
  "unhandled (createPosition E pid t s) = unhandled s"
  "nextId (createPosition E pid t s) = nextId s"
  by (simp_all add: createPosition_def Let_def push_def)

lemma fold_createPosition_fields [simp]:
  "transactionStream (fold (createPosition E pid) ts s) = transactionStream s"
  "receivedAllTransactions (fold (createPosition E pid) ts s) = receivedAllTransactions s"
  "transactionsReceivedCount (fold (createPosition E pid) ts s) = transactionsReceivedCount s"
  "transactionsProcessedCount (fold (createPosition E pid) ts s) = transactionsProcessedCount s"
  "transactions (fold (createPosition E pid) ts s) = transactions s"
  "processor (fold (createPosition E pid) ts s) = processor s"
  "done_flag (fold (createPosition E pid) ts s) = done_flag s"
  "cancelling (fold (createPosition E pid) ts s) = cancelling s"
  "cancelled (fold (createPosition E pid) ts s) = cancelled s"
  "errorEvents (fold (createPosition E pid) ts s) = errorEvents s"
  "unhandled (fold (createPosition E pid) ts s) = unhandled s"
  "nextId (fold (createPosition E pid) ts s) = nextId s"
  by (induction ts arbitrary: s; simp)+

lemma processBatch_fields [simp]:
  "transactionStream (processBatch fe s) = transactionStream s"
  "receivedAllTransactions (processBatch fe s) = receivedAllTransactions s"
  "transactionsReceivedCount (processBatch fe s) = transactionsReceivedCount s"
  "transactionsProcessedCount (processBatch fe s) = transactionsProcessedCount s"
  "transactions (processBatch fe s) = transactions s"
  "done_flag (processBatch fe s) = done_flag s"
  "cancelling (processBatch fe s) = cancelling s"
  "cancelled (processBatch fe s) = cancelled s"
  "pendingPositions (processBatch fe s) = pendingPositions s"
  "pushed (processBatch fe s) = pushed s"
  "errorEvents (processBatch fe s) = errorEvents s"
  "unhandled (processBatch fe s) = unhandled s"
  "nextId (processBatch fe s) = nextId s"
  by (simp_all add: processBatch_def split: option.splits prod.splits)

lemma processBatch_return_fields [simp]:
  "transactionStream (processBatch_return fe s) = transactionStream s"
  "receivedAllTransactions (processBatch_return fe s) = receivedAllTransactions s"
  "transactionsReceivedCount (processBatch_return fe s) = transactionsReceivedCount s"
  "transactionsProcessedCount (processBatch_return fe s) = transactionsProcessedCount s"
  "transactions (processBatch_return fe s) = transactions s"
  "processor (processBatch_return fe s) = processor s"
  "done_flag (processBatch_return fe s) = done_flag s"
  "cancelling (processBatch_return fe s) = cancelling s"
  "cancelled (processBatch_return fe s) = cancelled s"
  "pendingPositions (processBatch_return fe s) = pendingPositions s"
  "pushed (processBatch_return fe s) = pushed s"
  "errorEvents (processBatch_return fe s) = errorEvents s"
  "tasks (processBatch_return fe s) = tasks s @ (if fe then [AwaitDelay] else [])"
  "unhandled (processBatch_return fe s) = unhandled s"
  "nextId (processBatch_return fe s) = nextId s"
  by (simp_all add: processBatch_return_def)

lemma processBatch_count_fields [simp]:
  "transactionStream (processBatch_count n s) = transactionStream s"
  "receivedAllTransactions (processBatch_count n s) = receivedAllTransactions s"
  "transactionsReceivedCount (processBatch_count n s) = transactionsReceivedCount s"
  "transactionsProcessedCount (processBatch_count n s) = transactionsProcessedCount s + int n"
  "transactions (processBatch_count n s) = transactions s"
  "processor (processBatch_count n s) = processor s"
  "cancelling (processBatch_count n s) = cancelling s"
  "pendingPositions (processBatch_count n s) = pendingPositions s"
  "errorEvents (processBatch_count n s) = errorEvents s"
  "tasks (processBatch_count n s) = tasks s"
  "unhandled (processBatch_count n s) = unhandled s"
  "nextId (processBatch_count n s) = nextId s"
  by (simp_all add: processBatch_count_def)

lemma processBatch_resume_fields [simp]:
  "transactionStream (processBatch_resume E fe n out s) = transactionStream s"
  "receivedAllTransactions (processBatch_resume E fe n out s) = receivedAllTransactions s"
  "transactionsReceivedCount (processBatch_resume E fe n out s) = transactionsReceivedCount s"
  "processor (processBatch_resume E fe n out s) = processor s"
  "cancelling (processBatch_resume E fe n out s) = cancelling s"
  "errorEvents (processBatch_resume E fe n out s) = errorEvents s"
  "unhandled (processBatch_resume E fe n out s) = unhandled s"
  by (simp_all add: processBatch_resume_def Let_def)

lemma endLoop_fields [simp]:
  "transactionStream (endLoop s) = transactionStream s"
  "receivedAllTransactions (endLoop s) = receivedAllTransactions s"
  "transactionsReceivedCount (endLoop s) = transactionsReceivedCount s"
  "transactionsProcessedCount (endLoop s) = transactionsProcessedCount s"
  "transactions (endLoop s) = transactions s"
  "done_flag (endLoop s) = done_flag s"
  "cancelling (endLoop s) = cancelling s"
  "cancelled (endLoop s) = cancelled s"
  "pendingPositions (endLoop s) = pendingPositions s"
  "pushed (endLoop s) = pushed s"
  "errorEvents (endLoop s) = errorEvents s"
  "unhandled (endLoop s) = unhandled s"
  "nextId (endLoop s) = nextId s"
  by (simp_all add: endLoop_def)

lemma parseTransactions_fields [simp]:
  "transactionStream (parseTransactions d s) = transactionStream s"
  "transactionsProcessedCount (parseTransactions d s) = transactionsProcessedCount s"
  "transactions (parseTransactions d s) = transactions s"
  "cancelling (parseTransactions d s) = cancelling s"
  "pendingPositions (parseTransactions d s) = pendingPositions s"
  "errorEvents (parseTransactions d s) = errorEvents s"
  "unhandled (parseTransactions d s) = unhandled s"
  "nextId (parseTransactions d s) = nextId s"
  by (simp_all add: parseTransactions_def split: ParsedTransactionStreamData.splits)

lemma resume_fields:
  assumes "resume E t r s = Some s'"
  shows "cancelling s' = cancelling s"
    and "errorEvents s' = errorEvents s"
    and "r \<noteq> PairsFetched \<Longrightarrow> transactionStream s' = transactionStream s"
    and "receivedAllTransactions s' = receivedAllTransactions s"
    and "transactionsReceivedCount s' = transactionsReceivedCount s"
  using assms by (cases "(E, t, r, s)" rule: resume.cases; auto split: if_splits)+

lemma step_cancelling:
  "cancelling (step E a s) = (cancelling s \<or> (a = Cancel \<and> transactionStream s \<noteq> None))"
  by (cases a) (auto simp: step_def cancel_def resume_fields split: option.splits)

lemma step_uninitialised:
  "transactionStream s = None \<Longrightarrow> \<forall>i. a \<noteq> Resume i PairsFetched \<Longrightarrow>
     transactionStream (step E a s) = None"
  by (cases a) (auto simp: step_def cancel_def resume_fields split: option.splits)

lemma run_uninitialised:
  "transactionStream s = None \<Longrightarrow> \<forall>a \<in> set as. \<forall>i. a \<noteq> Resume i PairsFetched \<Longrightarrow>
     transactionStream (run E as s) = None \<and> cancelling (run E as s) = cancelling s"
proof (induction as arbitrary: s)
  case Nil
  then show ?case by (simp add: run_def)
next
  case (Cons a as)
  have "transactionStream (step E a s) = None"
    using Cons.prems by (simp add: step_uninitialised)
  moreover have "cancelling (step E a s) = cancelling s"
    using Cons.prems by (simp add: step_cancelling)
  ultimately show ?case
    using Cons.IH [of "step E a s"] Cons.prems by (simp add: run_def)
qed

section \<open>Finalize steps and their pending keys\<close>

lemma task_keys_simps [simp]:
  "task_keys [] = []"
  "task_keys (t # ts) = task_key t @ task_keys ts"
  "task_keys (ts @ us) = task_keys ts @ task_keys us"
  by (simp_all add: task_keys_def)

lemma task_key_simps [simp]:
  "task_key AwaitPairs = []"
  "task_key (AwaitTransform fe b) = []"
  "task_key (AwaitNext fe n out) = []"
  "task_key (AwaitUpdate pid k txs pos) = [k]"
  "task_key (AwaitCreated pid k) = [k]"
  "task_key (AwaitAll pid fe n) = []"
  "task_key AwaitDelay = []"
  by (simp_all add: task_key_def)

lemma task_keys_filter_all [simp]:
  "task_keys (filter (\<lambda>t. \<not> is_all pid t) ts) = task_keys ts"
  by (induction ts) (auto simp: is_all_def task_key_def split: task.splits)

lemma mset_splice_indexOf:
  "k \<in> set xs \<Longrightarrow> mset (splice_indexOf k xs) = mset xs - {#k#}"
  by (simp add: splice_indexOf_def)

lemma mset_splice_snoc [simp]: "mset (splice_indexOf k (xs @ [k])) = mset xs"
  by (simp add: mset_splice_indexOf)

text \<open>Everything \<open>_createPosition\<close> does, for one transaction and for the batch.\<close>

lemma createPosition_effect:
  "\<exists>new cs. tasks (createPosition E pid t s) = tasks s @ new
      \<and> (\<forall>u \<in> set new. is_update u \<and> is_child pid u)
      \<and> mset (pendingPositions (createPosition E pid t s))
          = mset (pendingPositions s) + mset (task_keys new)
      \<and> pushed (createPosition E pid t s) = pushed s @ cs
      \<and> (\<forall>c \<in> set cs. is_record c)
      \<and> length cs + length new = 1"
proof (cases "isClosed (newMeteoraPosition E (invertAndFillMissingFees E
          (filter (\<lambda>x. position x = position t) (transactions s))))")
  case True
  then show ?thesis
    by (simp add: createPosition_def Let_def push_def is_record_def)
next
  case False
  then show ?thesis
    by (simp add: createPosition_def Let_def is_update_def is_child_def)
qed

lemma fold_createPosition_effect:
  "\<exists>new cs. tasks (fold (createPosition E pid) ts s) = tasks s @ new
      \<and> (\<forall>u \<in> set new. is_update u \<and> is_child pid u)
      \<and> mset (pendingPositions (fold (createPosition E pid) ts s))
          = mset (pendingPositions s) + mset (task_keys new)
      \<and> pushed (fold (createPosition E pid) ts s) = pushed s @ cs
      \<and> (\<forall>c \<in> set cs. is_record c)
      \<and> length cs + length new = length ts"
proof (induction ts arbitrary: s)
  case Nil
  show ?case by simp
next
  case (Cons t ts)
  obtain new1 cs1 where 1:
    "tasks (createPosition E pid t s) = tasks s @ new1"
    "\<forall>u \<in> set new1. is_update u \<and> is_child pid u"
    "mset (pendingPositions (createPosition E pid t s))
       = mset (pendingPositions s) + mset (task_keys new1)"
    "pushed (createPosition E pid t s) = pushed s @ cs1"
    "\<forall>c \<in> set cs1. is_record c"
    "length cs1 + length new1 = 1"
    using createPosition_effect [of E pid t s] by blast
  obtain new2 cs2 where 2:
    "tasks (fold (createPosition E pid) ts (createPosition E pid t s))
       = tasks (createPosition E pid t s) @ new2"
    "\<forall>u \<in> set new2. is_update u \<and> is_child pid u"
    "mset (pendingPositions (fold (createPosition E pid) ts (createPosition E pid t s)))
       = mset (pendingPositions (createPosition E pid t s)) + mset (task_keys new2)"
    "pushed (fold (createPosition E pid) ts (createPosition E pid t s))
       = pushed (createPosition E pid t s) @ cs2"
    "\<forall>c \<in> set cs2. is_record c"
    "length cs2 + length new2 = length ts"
    using Cons.IH [of "createPosition E pid t s"] by blast
  show ?case
    apply (rule exI [of _ "new1 @ new2"])
    apply (rule exI [of _ "cs1 @ cs2"])
    using 1 2 by auto
qed

lemma is_update_simps [simp]:
  "\<not> is_update AwaitPairs"
  "\<not> is_update (AwaitTransform fe b)"
  "\<not> is_update (AwaitNext fe n out)"
  "is_update (AwaitUpdate pid k txs pos)"
  "\<not> is_update (AwaitCreated pid k)"
  "\<not> is_update (AwaitAll pid fe n)"
  "\<not> is_update AwaitDelay"
  by (simp_all add: is_update_def)

lemma is_record_simps [simp]:
  "\<not> is_record None"
  "\<not> is_record (Some (Forwarded d))"
  "\<not> is_record (Some (TransactionCount n))"
  "is_record (Some (PositionAndTransactions txs pos))"
  "\<not> is_record (Some (UpdatingOpenPositions n))"
  by (simp_all add: is_record_def)

lemma filter_update_all [simp]:
  "filter is_update (filter (\<lambda>t. \<not> is_all pid t) ts) = filter is_update ts"
  by (induction ts) (auto simp: is_all_def is_update_def split: task.splits)

text \<open>A chunk that is no position record leaves the records pushed so far as they are.\<close>

lemma push_records:
  "\<not> is_record c \<Longrightarrow> filter is_record (pushed (push c s)) = filter is_record (pushed s)"
  by (simp add: push_def)

lemma finish_records [simp]:
  "filter is_record (pushed (finish s)) = filter is_record (pushed s)"
  by (simp add: finish_def push_records)

lemma processBatch_count_records [simp]:
  "filter is_record (pushed (processBatch_count n s)) = filter is_record (pushed s)"
  by (simp add: processBatch_count_def)

lemma push_pending:
  "pendingPositions s \<noteq> [] \<Longrightarrow> pushed (push c s) = pushed s @ [c]"
  by (simp add: push_def)

lemma processBatch_tasks:
  "filter is_update (tasks (processBatch fe s)) = filter is_update (tasks s)"
  "task_keys (tasks (processBatch fe s)) = task_keys (tasks s)"
  by (simp_all add: processBatch_def split: option.splits prod.splits)

lemma endLoop_tasks:
  "filter is_update (tasks (endLoop s)) = filter is_update (tasks s)"
  "task_keys (tasks (endLoop s)) = task_keys (tasks s)"
  by (simp_all add: endLoop_def processBatch_tasks)

lemma parseTransactions_tasks:
  "filter is_update (tasks (parseTransactions d s)) = filter is_update (tasks s)"
  "task_keys (tasks (parseTransactions d s)) = task_keys (tasks s)"
  "filter is_record (pushed (parseTransactions d s)) = filter is_record (pushed s)"
  by (simp_all add: parseTransactions_def processBatch_tasks push_records
        split: ParsedTransactionStreamData.splits)

lemma processBatch_resume_effect:
  "\<exists>new cs. task_keys (tasks (processBatch_resume E fe n out s)) = task_keys (tasks s) @ task_keys new
      \<and> filter is_update (tasks (processBatch_resume E fe n out s))
          = filter is_update (tasks s) @ new
      \<and> mset (pendingPositions (processBatch_resume E fe n out s))
          = mset (pendingPositions s) + mset (task_keys new)
      \<and> filter is_record (pushed (processBatch_resume E fe n out s))
          = filter is_record (pushed s) @ cs
      \<and> length (filter is_open (transactions (processBatch_resume E fe n out s)))
          = length (filter is_open (transactions s)) + (length cs + length new)"
proof (cases "n > 0 \<and> out \<noteq> []")
  case True
  define s2 where "s2 = (push (Some (TransactionCount (length (transactions s @ out))))
                     (s\<lparr>transactions := transactions s @ out\<rparr>))\<lparr>nextId := Suc (nextId s)\<rparr>"
  obtain new cs where f:
    "tasks (fold (createPosition E (nextId s)) (filter is_open out) s2) = tasks s2 @ new"
    "\<forall>u \<in> set new. is_update u \<and> is_child (nextId s) u"
    "mset (pendingPositions (fold (createPosition E (nextId s)) (filter is_open out) s2))
       = mset (pendingPositions s2) + mset (task_keys new)"
    "pushed (fold (createPosition E (nextId s)) (filter is_open out) s2) = pushed s2 @ cs"
    "\<forall>c \<in> set cs. is_record c"
    "length cs + length new = length (filter is_open out)"
    using fold_createPosition_effect [of E "nextId s" "filter is_open out" s2] by blast
  have r: "processBatch_resume E fe n out s
             = spawn (AwaitAll (nextId s) fe n)
                 (fold (createPosition E (nextId s)) (filter is_open out) s2)"
    using True by (simp add: processBatch_resume_def Let_def s2_def)
  have u: "filter is_update new = new" and c: "filter is_record cs = cs"
    using f(2,5) by (simp_all add: filter_id_conv)
  have p: "filter is_record (pushed s2) = filter is_record (pushed s)"
    by (simp add: s2_def push_records)
  show ?thesis
    apply (rule exI [of _ new])
    apply (rule exI [of _ cs])
    using f(1,3,4,6) u c p by (simp add: r s2_def)
next
  case False
  then show ?thesis
    by (auto simp: processBatch_resume_def)
qed

lemma resume_covers:
  assumes "resume E t r s = Some s'"
    and "mset (task_key t) + mset (task_keys (tasks s)) \<subseteq># mset (pendingPositions s)"
  shows "pending_covers s'"
proof -
  have k: "mset (task_keys (tasks s)) \<subseteq># mset (pendingPositions s)"
    using assms(2) mset_subset_eq_add_right subset_mset.order_trans by blast
  show ?thesis
  proof (cases "\<exists>fe n out. t = AwaitNext fe n out \<and> r = Continue")
    case True
    then obtain fe n out where t: "t = AwaitNext fe n out" "r = Continue" by blast
    obtain new where
      "task_keys (tasks (processBatch_resume E fe n out s)) = task_keys (tasks s) @ task_keys new"
      "mset (pendingPositions (processBatch_resume E fe n out s))
          = mset (pendingPositions s) + mset (task_keys new)"
      using processBatch_resume_effect [of E fe n out s] by blast
    then show ?thesis
      using assms(1) k t by (auto simp: pending_covers_def)
  next
    case False
    show ?thesis
    proof (cases "\<exists>pid k. t = AwaitCreated pid k")
      case True
      then obtain pid k where t: "t = AwaitCreated pid k" by blast
      have "k \<in># mset (pendingPositions s)"
        using assms(2) t by (simp add: insert_subset_eq_iff)
      then have "mset (splice_indexOf k (pendingPositions s)) = mset (pendingPositions s) - {#k#}"
        by (simp add: mset_splice_indexOf)
      moreover have "mset (task_keys (tasks s)) \<subseteq># mset (pendingPositions s) - {#k#}"
        using assms(2) t by (simp add: insert_subset_eq_iff)
      ultimately show ?thesis
        using assms(1) t by (cases r) (auto simp: pending_covers_def)
    next
      case False
      with \<open>\<not> (\<exists>fe n out. t = AwaitNext fe n out \<and> r = Continue)\<close> show ?thesis
        using assms k
        by (cases "(E, t, r, s)" rule: resume.cases)
           (auto simp: pending_covers_def endLoop_tasks split: if_splits)
    qed
  qed
qed

lemma remove_nth_filter:
  "i < length ts \<Longrightarrow>
     int (length (filter P ts))
       = int (length (filter P (take i ts @ drop (Suc i) ts))) + (if P (ts ! i) then 1 else 0)"
proof (induction ts arbitrary: i)
  case Nil
  then show ?case by simp
next
  case (Cons t ts)
  show ?case
  proof (cases i)
    case 0
    then show ?thesis by simp
  next
    case (Suc j)
    then have "j < length ts" using Cons.prems by simp
    from Cons.IH [OF this] show ?thesis using Suc by (simp split: if_splits)
  qed
qed

lemma filter_update_not_all [simp]:
  "filter (\<lambda>t. \<not> is_all pid t \<and> is_update t) ts = filter is_update ts"
  by (induction ts) (auto simp: is_all_def is_update_def split: task.splits)

lemma remove_nth_keys:
  "i < length ts \<Longrightarrow>
     mset (task_keys ts) = mset (task_key (ts ! i)) + mset (task_keys (take i ts @ drop (Suc i) ts))"
proof (induction ts arbitrary: i)
  case Nil
  then show ?case by simp
next
  case (Cons t ts)
  then show ?case by (cases i) auto
qed

lemma resume_balance:
  assumes "resume E t r s = Some s'"
    and "mset (task_key t) + mset (task_keys (tasks s)) \<subseteq># mset (pendingPositions s)"
  shows "balance s - (if is_update t then 1 else 0) \<le> balance s'"
    and "\<forall>e. r \<noteq> Rejected e \<Longrightarrow> balance s' = balance s - (if is_update t then 1 else 0)"
proof -
  have "balance s - (if is_update t then 1 else 0) \<le> balance s'
        \<and> ((\<forall>e. r \<noteq> Rejected e) \<longrightarrow> balance s' = balance s - (if is_update t then 1 else 0))"
  proof (cases "\<exists>fe n out. t = AwaitNext fe n out \<and> r = Continue")
    case True
    then obtain fe n out where t: "t = AwaitNext fe n out" "r = Continue" by blast
    obtain new cs where
      "filter is_update (tasks (processBatch_resume E fe n out s))
          = filter is_update (tasks s) @ new"
      "filter is_record (pushed (processBatch_resume E fe n out s))
          = filter is_record (pushed s) @ cs"
      "length (filter is_open (transactions (processBatch_resume E fe n out s)))
          = length (filter is_open (transactions s)) + (length cs + length new)"
      using processBatch_resume_effect [of E fe n out s] by blast
    then show ?thesis
      using assms(1) t by (auto simp: balance_def)
  next
    case False
    show ?thesis
    proof (cases "\<exists>pid k txs pos. t = AwaitUpdate pid k txs pos")
      case True
      then obtain pid k txs pos where t: "t = AwaitUpdate pid k txs pos" by blast
      have "k \<in># mset (pendingPositions s)"
        using assms(2) t by (simp add: insert_subset_eq_iff)
      then have "pendingPositions s \<noteq> []" by auto
      then show ?thesis
        using assms(1) t by (cases r) (auto simp: balance_def push_pending)
    next
      case False
      with \<open>\<not> (\<exists>fe n out. t = AwaitNext fe n out \<and> r = Continue)\<close> show ?thesis
        using assms(1)
        by (cases "(E, t, r, s)" rule: resume.cases)
           (auto simp: balance_def endLoop_tasks split: if_splits)
    qed
  qed
  then show "balance s - (if is_update t then 1 else 0) \<le> balance s'"
    and "\<forall>e. r \<noteq> Rejected e \<Longrightarrow> balance s' = balance s - (if is_update t then 1 else 0)"
    by blast+
qed

lemma step_covers: "pending_covers s \<Longrightarrow> pending_covers (step E a s)"
proof (cases a)
  case (Resume i r)
  assume c: "pending_covers s"
  show ?thesis
  proof (cases "i < length (tasks s)")
    case True
    define s0 where "s0 = s\<lparr>tasks := take i (tasks s) @ drop (Suc i) (tasks s)\<rparr>"
    have "mset (task_key (tasks s ! i)) + mset (task_keys (tasks s0)) \<subseteq># mset (pendingPositions s0)"
      using c remove_nth_keys [OF True] by (simp add: s0_def pending_covers_def)
    then have "\<And>s'. resume E (tasks s ! i) r s0 = Some s' \<Longrightarrow> pending_covers s'"
      by (rule resume_covers [rotated])
    then show ?thesis
      using c True Resume by (simp add: step_def s0_def split: option.splits)
  next
    case False
    with c Resume show ?thesis by (simp add: step_def)
  qed
qed (auto simp: step_def cancel_def pending_covers_def parseTransactions_tasks endLoop_tasks
       split: option.splits)

lemma step_balance:
  assumes "pending_covers s"
  shows "balance s \<le> balance (step E a s)"
    and "\<not> is_rejection a \<Longrightarrow> balance (step E a s) = balance s"
proof -
  have "balance s \<le> balance (step E a s)
        \<and> (\<not> is_rejection a \<longrightarrow> balance (step E a s) = balance s)"
  proof (cases a)
    case (Resume i r)
    show ?thesis
    proof (cases "i < length (tasks s)")
      case True
      define s0 where "s0 = s\<lparr>tasks := take i (tasks s) @ drop (Suc i) (tasks s)\<rparr>"
      have k: "mset (task_key (tasks s ! i)) + mset (task_keys (tasks s0))
                 \<subseteq># mset (pendingPositions s0)"
        using assms remove_nth_keys [OF True] by (simp add: s0_def pending_covers_def)
      have b: "balance s0 - (if is_update (tasks s ! i) then 1 else 0) = balance s"
        using remove_nth_filter [OF True, of is_update] by (simp add: balance_def s0_def)
      show ?thesis
      proof (cases "resume E (tasks s ! i) r s0")
        case None
        then show ?thesis using True Resume by (simp add: step_def s0_def)
      next
        case (Some s')
        have "step E a s = s'"
          using True Resume Some by (simp add: step_def s0_def)
        moreover have "\<not> is_rejection a \<Longrightarrow> \<forall>e. r \<noteq> Rejected e"
          using Resume by (auto simp: is_rejection_def)
        ultimately show ?thesis
          using resume_balance [OF Some k] b by auto
      qed
    next
      case False
      then show ?thesis using Resume by (simp add: step_def)
    qed
  qed (auto simp: step_def cancel_def balance_def parseTransactions_tasks endLoop_tasks
         split: option.splits)
  then show "balance s \<le> balance (step E a s)"
    and "\<not> is_rejection a \<Longrightarrow> balance (step E a s) = balance s"
    by blast+
qed

lemma run_covers: "pending_covers s \<Longrightarrow> pending_covers (run E as s)"
  by (induction as arbitrary: s) (simp_all add: run_def step_covers)

lemma run_balance:
  "pending_covers s \<Longrightarrow> balance s \<le> balance (run E as s)
     \<and> ((\<forall>a \<in> set as. \<not> is_rejection a) \<longrightarrow> balance (run E as s) = balance s)"
proof (induction as arbitrary: s)
  case Nil
  show ?case by (simp add: run_def)
next
  case (Cons a as)
  have "pending_covers (step E a s)" using Cons.prems by (rule step_covers)
  from Cons.IH [OF this] step_balance [OF Cons.prems, where E = E and a = a]
  show ?case by (auto simp: run_def)
qed

lemma constructor_covers: "pending_covers constructor"
  by (simp add: pending_covers_def constructor_def)

lemma constructor_balance: "balance constructor = 0"
  by (simp add: balance_def constructor_def)

section \<open>Delivered, queued and processed transactions\<close>

lemma task_count_simps [simp]:
  "task_count AwaitPairs = 0"
  "task_count (AwaitTransform fe b) = length b"
  "task_count (AwaitNext fe n out) = n"
  "task_count (AwaitUpdate pid k txs pos) = 0"
  "task_count (AwaitCreated pid k) = 0"
  "task_count (AwaitAll pid fe n) = n"
  "task_count AwaitDelay = 0"
  by (simp_all add: task_count_def)

lemma child_id_simps [simp]:
  "child_id AwaitPairs = []"
  "child_id (AwaitTransform fe b) = []"
  "child_id (AwaitNext fe n out) = []"
  "child_id (AwaitUpdate pid k txs pos) = [pid]"
  "child_id (AwaitCreated pid k) = [pid]"
  "child_id (AwaitAll pid fe n) = []"
  "child_id AwaitDelay = []"
  by (simp_all add: child_id_def)

lemma all_id_simps [simp]:
  "all_id AwaitPairs = []"
  "all_id (AwaitTransform fe b) = []"
  "all_id (AwaitNext fe n out) = []"
  "all_id (AwaitUpdate pid k txs pos) = []"
  "all_id (AwaitCreated pid k) = []"
  "all_id (AwaitAll pid fe n) = [pid]"
  "all_id AwaitDelay = []"
  by (simp_all add: all_id_def)

lemma counted_simps [simp]:
  "counted AwaitPairs"
  "counted (AwaitTransform fe b)"
  "counted (AwaitNext fe n out)"
  "counted (AwaitUpdate pid k txs pos)"
  "counted (AwaitCreated pid k)"
  "counted (AwaitAll pid fe n) \<longleftrightarrow> 0 < n"
  "counted AwaitDelay"
  by (simp_all add: counted_def)

lemma child_ids_simps [simp]:
  "child_ids [] = {}"
  "child_ids (t # ts) = set (child_id t) \<union> child_ids ts"
  "child_ids (ts @ us) = child_ids ts \<union> child_ids us"
  by (simp_all add: child_ids_def)

lemma all_ids_simps [simp]:
  "all_ids [] = {}"
  "all_ids (t # ts) = set (all_id t) \<union> all_ids ts"
  "all_ids (ts @ us) = all_ids ts \<union> all_ids us"
  by (simp_all add: all_ids_def)

lemma is_child_iff: "is_child pid t \<longleftrightarrow> pid \<in> set (child_id t)"
  by (auto simp: is_child_def child_id_def split: task.splits)

lemma is_all_iff: "is_all pid t \<longleftrightarrow> pid \<in> set (all_id t)"
  by (auto simp: is_all_def all_id_def split: task.splits)

lemma ex_child_iff: "list_ex (is_child pid) ts \<longleftrightarrow> pid \<in> child_ids ts"
  by (auto simp: list_ex_iff child_ids_def is_child_iff)

lemma ex_all_iff: "list_ex (is_all pid) ts \<longleftrightarrow> pid \<in> all_ids ts"
  by (auto simp: list_ex_iff all_ids_def is_all_iff)

lemma update_child_ids:
  "\<forall>u \<in> set new. is_update u \<and> is_child pid u \<Longrightarrow> child_ids new \<subseteq> {pid}"
  by (induction new) (auto simp: is_child_def child_id_def split: task.splits)

lemma update_all_ids:
  "\<forall>u \<in> set new. is_update u \<Longrightarrow> all_ids new = {}"
  by (induction new) (auto simp: is_update_def all_id_def split: task.splits)

lemma update_count:
  "\<forall>u \<in> set new. is_update u \<Longrightarrow> sum_list (map task_count new) = 0"
  by (induction new) (auto simp: is_update_def task_count_def split: task.splits)

lemma update_counted:
  "\<forall>u \<in> set new. is_update u \<Longrightarrow> list_all counted new"
  by (induction new) (auto simp: is_update_def counted_def split: task.splits)

lemma filter_all_ids: "all_ids (filter (\<lambda>t. \<not> is_all pid t) ts) = all_ids ts - {pid}"
  by (induction ts) (auto simp: is_all_iff all_id_def split: task.splits)

lemma filter_child_ids [simp]: "child_ids (filter (\<lambda>t. \<not> is_all pid t) ts) = child_ids ts"
  by (induction ts) (auto simp: is_all_iff all_id_def child_id_def split: task.splits)

lemma filter_counted: "list_all counted ts \<Longrightarrow> list_all counted (filter P ts)"
  by (induction ts) auto

lemma filter_count_le:
  "sum_list (map task_count (filter P ts)) \<le> sum_list (map task_count ts)"
  by (induction ts) auto

text \<open>Dropping a pending \<open>Promise.all\<close> loses the transactions it would have counted.\<close>

lemma filter_count_less:
  "list_all counted ts \<Longrightarrow> pid \<in> all_ids ts \<Longrightarrow>
     sum_list (map task_count (filter (\<lambda>t. \<not> is_all pid t) ts)) < sum_list (map task_count ts)"
proof (induction ts)
  case Nil
  then show ?case by simp
next
  case (Cons t ts)
  show ?case
  proof (cases "is_all pid t")
    case True
    then have "0 < task_count t"
      using Cons.prems(1) by (auto simp: is_all_def counted_def task_count_def split: task.splits)
    with True filter_count_le [of "\<lambda>t. \<not> is_all pid t" ts] show ?thesis by simp
  next
    case False
    with Cons show ?thesis by (auto simp: is_all_iff)
  qed
qed

lemma remove_nth_sum:
  "i < length ts \<Longrightarrow>
     sum_list (map f ts) = f (ts ! i) + sum_list (map f (take i ts @ drop (Suc i) ts))"
  for f :: "'a \<Rightarrow> nat"
proof (induction ts arbitrary: i)
  case Nil
  then show ?case by simp
next
  case (Cons t ts)
  show ?case
  proof (cases i)
    case 0
    then show ?thesis by simp
  next
    case (Suc j)
    then have "j < length ts" using Cons.prems by simp
    from Cons.IH [OF this] show ?thesis using Suc by simp
  qed
qed

lemma remove_nth_child_ids:
  "i < length ts \<Longrightarrow>
     child_ids ts = set (child_id (ts ! i)) \<union> child_ids (take i ts @ drop (Suc i) ts)"
proof (induction ts arbitrary: i)
  case Nil
  then show ?case by simp
next
  case (Cons t ts)
  show ?case
  proof (cases i)
    case 0
    then show ?thesis by simp
  next
    case (Suc j)
    then have "j < length ts" using Cons.prems by simp
    from Cons.IH [OF this] show ?thesis using Suc by auto
  qed
qed

lemma remove_nth_all_ids:
  "i < length ts \<Longrightarrow>
     all_ids ts = set (all_id (ts ! i)) \<union> all_ids (take i ts @ drop (Suc i) ts)"
proof (induction ts arbitrary: i)
  case Nil
  then show ?case by simp
next
  case (Cons t ts)
  show ?case
  proof (cases i)
    case 0
    then show ?thesis by simp
  next
    case (Suc j)
    then have "j < length ts" using Cons.prems by simp
    from Cons.IH [OF this] show ?thesis using Suc by auto
  qed
qed

lemma remove_nth_counted:
  "i < length ts \<Longrightarrow>
     list_all counted ts \<longleftrightarrow>
       counted (ts ! i) \<and> list_all counted (take i ts @ drop (Suc i) ts)"
proof (induction ts arbitrary: i)
  case Nil
  then show ?case by simp
next
  case (Cons t ts)
  show ?case
  proof (cases i)
    case 0
    then show ?thesis by simp
  next
    case (Suc j)
    then have "j < length ts" using Cons.prems by simp
    from Cons.IH [OF this] show ?thesis using Suc by auto
  qed
qed

lemma outstanding_simps [simp]:
  "outstanding (push c s) = outstanding s"
  "outstanding (finish s) = outstanding s"
  "outstanding (spawn t s) = outstanding s + int (task_count t)"
  "outstanding (splicePending k s) = outstanding s"
  "outstanding (unhandledRejection e s) = outstanding s"
  "outstanding (processBatch_count n s) = outstanding s + int n"
  "outstanding (processBatch_return fe s) = outstanding s"
  by (simp_all add: outstanding_def)

lemma processBatch_shape:
  "\<exists>new. tasks (processBatch fe s) = tasks s @ new
      \<and> child_ids new = {} \<and> all_ids new = {} \<and> task_keys new = [] \<and> list_all counted new
      \<and> outstanding (processBatch fe s) = outstanding s"
  by (auto simp: processBatch_def next_start_def outstanding_def
        split: option.splits prod.splits list.splits if_splits)

lemma endLoop_shape:
  "\<exists>new. tasks (endLoop s) = tasks s @ new
      \<and> child_ids new = {} \<and> all_ids new = {} \<and> task_keys new = [] \<and> list_all counted new
      \<and> outstanding (endLoop s) = outstanding s"
  using processBatch_shape [of True s] by (auto simp: endLoop_def)

lemma settled_shape:
  assumes "settled s d"
    and "tasks s' = tasks s @ new" "child_ids new = {}" "all_ids new = {}" "task_keys new = []"
      "list_all counted new"
    and "outstanding s' = outstanding s + c" "0 \<le> c"
    and "pendingPositions s' = pendingPositions s"
  shows "settled s' (d + c)"
  using assms by (auto simp: settled_def)

lemma processBatch_resume_settled:
  assumes le: "outstanding s + int n \<le> d"
    and cnt: "list_all counted (tasks s)"
    and tight: "outstanding s + int n = d \<longrightarrow>
                  child_ids (tasks s) \<subseteq> all_ids (tasks s)
                  \<and> mset (pendingPositions s) = mset (task_keys (tasks s))"
  shows "settled (processBatch_resume E fe n out s) d"
proof (cases "n > 0 \<and> out \<noteq> []")
  case True
  define s2 where "s2 = (push (Some (TransactionCount (length (transactions s @ out))))
                     (s\<lparr>transactions := transactions s @ out\<rparr>))\<lparr>nextId := Suc (nextId s)\<rparr>"
  define s3 where "s3 = fold (createPosition E (nextId s)) (filter is_open out) s2"
  obtain new where f:
    "tasks s3 = tasks s2 @ new"
    "\<forall>u \<in> set new. is_update u \<and> is_child (nextId s) u"
    "mset (pendingPositions s3) = mset (pendingPositions s2) + mset (task_keys new)"
    using fold_createPosition_effect [of E "nextId s" "filter is_open out" s2]
    unfolding s3_def by blast
  have r: "processBatch_resume E fe n out s = spawn (AwaitAll (nextId s) fe n) s3"
    using True by (simp add: processBatch_resume_def Let_def s2_def s3_def)
  have t2: "tasks s2 = tasks s" "pendingPositions s2 = pendingPositions s"
    by (simp_all add: s2_def)
  have o3: "outstanding s3 = outstanding s"
    using f(1) update_count [of new] f(2)
    by (simp add: outstanding_def s3_def t2) (simp add: s2_def)
  have c: "child_ids new \<subseteq> {nextId s}" "all_ids new = {}" "list_all counted new"
    using f(2) update_child_ids [of new "nextId s"] update_all_ids [of new] update_counted [of new]
    by auto
  show ?thesis
    unfolding r settled_def
    using le cnt tight True f(1,3) t2 o3 c by auto
next
  case False
  then show ?thesis
    using assms by (auto simp: processBatch_resume_def settled_def)
qed

lemma resume_settled:
  assumes r: "resume E t r s = Some s'"
    and le: "outstanding s + int (task_count t) \<le> d"
    and cnt: "counted t" "list_all counted (tasks s)"
    and tight: "outstanding s + int (task_count t) = d \<longrightarrow>
                  set (child_id t) \<union> child_ids (tasks s) \<subseteq> set (all_id t) \<union> all_ids (tasks s)
                  \<and> mset (pendingPositions s) = mset (task_key t) + mset (task_keys (tasks s))"
  shows "settled s' d"
proof (cases t)
  case AwaitPairs
  then show ?thesis
    using assms by (cases r) (auto simp: settled_def outstanding_def)
next
  case (AwaitTransform fe b)
  then show ?thesis
    using assms by (cases r) (auto simp: settled_def outstanding_def)
next
  case (AwaitNext fe n out)
  then have "r = Continue" and s': "s' = processBatch_resume E fe n out s"
    using r by (cases r; simp)+
  show ?thesis
    unfolding s'
    using le cnt tight AwaitNext by (intro processBatch_resume_settled) auto
next
  case (AwaitUpdate pid k txs pos)
  show ?thesis
  proof (cases r)
    case (Augmented pos')
    then show ?thesis
      using assms AwaitUpdate by (auto simp: settled_def)
  next
    case (Rejected e)
    then have s': "s' = rejectAll pid e s"
      using r AwaitUpdate by simp
    show ?thesis
    proof (cases "pid \<in> all_ids (tasks s)")
      case True
      have "sum_list (map task_count (filter (\<lambda>t. \<not> is_all pid t) (tasks s)))
              < sum_list (map task_count (tasks s))"
        using cnt(2) True by (rule filter_count_less)
      then have "outstanding s' < outstanding s"
        by (simp add: s' outstanding_def)
      then show ?thesis
        using le cnt(2) AwaitUpdate by (auto simp: settled_def s' filter_counted)
    next
      case False
      then have "s' = s"
        by (simp add: s' rejectAll_def ex_all_iff)
      moreover have "outstanding s \<noteq> d"
        using tight False AwaitUpdate by auto
      ultimately show ?thesis
        using le cnt(2) AwaitUpdate by (auto simp: settled_def)
    qed
  qed (use r AwaitUpdate in simp_all)
next
  case (AwaitCreated pid k)
  then have "r = Continue" and s': "s' = splicePending k s"
    using r by (cases r; simp)+
  have "outstanding s = d \<Longrightarrow> mset (splice_indexOf k (pendingPositions s)) = mset (task_keys (tasks s))"
  proof -
    assume "outstanding s = d"
    then have m: "mset (pendingPositions s) = add_mset k (mset (task_keys (tasks s)))"
      using tight AwaitCreated by simp
    then have "k \<in> set (pendingPositions s)"
      by (metis set_mset_mset union_single_eq_member)
    then show ?thesis
      using m by (simp add: mset_splice_indexOf)
  qed
  then show ?thesis
    using le cnt tight AwaitCreated by (auto simp: settled_def s')
next
  case (AwaitAll pid fe n)
  then have "r = Continue" and c: "pid \<notin> child_ids (tasks s)"
    and s': "s' = processBatch_return fe (processBatch_count n s)"
    using r by (cases r; simp add: ex_child_iff split: if_splits)+
  show ?thesis
    using le cnt tight AwaitAll c by (auto simp: settled_def s')
next
  case AwaitDelay
  then have "r = Continue" and s': "s' = endLoop s"
    using r by (cases r; simp)+
  obtain new where "tasks (endLoop s) = tasks s @ new"
      "child_ids new = {}" "all_ids new = {}" "task_keys new = []" "list_all counted new"
      "outstanding (endLoop s) = outstanding s"
    using endLoop_shape [of s] by blast
  then show ?thesis
    using le cnt tight AwaitDelay by (auto simp: settled_def s')
qed

lemma batch_size_nonneg: "0 \<le> batch_size a"
  by (simp add: batch_size_def split: action.splits ParsedTransactionStreamData.splits)

lemma settled_later: "settled s d \<Longrightarrow> 0 \<le> c \<Longrightarrow> settled s (d + c)"
  by (auto simp: settled_def)

lemma parseTransactions_settled:
  assumes "settled s d"
  shows "settled (parseTransactions x s) (d + batch_size (SourceData x))"
proof (cases x)
  case (ParsedTransaction b)
  define s1 where "s1 = s\<lparr>processor := addBatch b (processor s)\<rparr>"
  obtain new where "tasks (processBatch False s1) = tasks s1 @ new"
      "child_ids new = {}" "all_ids new = {}" "task_keys new = []" "list_all counted new"
      "outstanding (processBatch False s1) = outstanding s1"
    using processBatch_shape [of False s1] by blast
  moreover have "outstanding s1 = outstanding s + int (length b)"
    by (simp add: s1_def outstanding_def addBatch_def)
  moreover have "tasks s1 = tasks s" "pendingPositions s1 = pendingPositions s"
    by (simp_all add: s1_def)
  ultimately show ?thesis
    using assms ParsedTransaction
    by (auto simp: parseTransactions_def batch_size_def s1_def [symmetric] settled_def)
next
  case (SignatureCount n)
  then show ?thesis
    using assms by (simp add: parseTransactions_def batch_size_def settled_def outstanding_def)
next
  case AllSignaturesFound
  then show ?thesis
    using assms by (simp add: parseTransactions_def batch_size_def settled_def outstanding_def)
qed

lemma step_settled:
  assumes "settled s d"
  shows "settled (step E a s) (d + batch_size a)"
proof (cases a)
  case Cancel
  then show ?thesis
    using assms
    by (auto simp: step_def cancel_def batch_size_def settled_def outstanding_def
          split: option.splits)
next
  case (SourceData x)
  then show ?thesis
    using assms parseTransactions_settled [OF assms, of x] settled_later [OF assms batch_size_nonneg]
    by (simp add: step_def)
next
  case SourceEnd
  define s1 where "s1 = s\<lparr>receivedAllTransactions := True\<rparr>"
  obtain new where "tasks (endLoop s1) = tasks s1 @ new"
      "child_ids new = {}" "all_ids new = {}" "task_keys new = []" "list_all counted new"
      "outstanding (endLoop s1) = outstanding s1"
    using endLoop_shape [of s1] by blast
  moreover have "outstanding s1 = outstanding s" "tasks s1 = tasks s"
      "pendingPositions (endLoop s1) = pendingPositions s"
    by (simp_all add: s1_def outstanding_def)
  ultimately show ?thesis
    using assms SourceEnd
    by (auto simp: step_def batch_size_def s1_def [symmetric] settled_def)
next
  case (SourceError e)
  then show ?thesis
    using assms by (auto simp: step_def batch_size_def settled_def outstanding_def)
next
  case (Resume i r)
  show ?thesis
  proof (cases "i < length (tasks s)")
    case True
    define s0 where "s0 = s\<lparr>tasks := take i (tasks s) @ drop (Suc i) (tasks s)\<rparr>"
    define t where "t = tasks s ! i"
    have o: "outstanding s0 + int (task_count t) = outstanding s"
      using remove_nth_sum [OF True, of task_count] by (simp add: outstanding_def s0_def t_def)
    have c: "counted t" "list_all counted (tasks s0)"
      using assms remove_nth_counted [OF True] by (simp_all add: settled_def s0_def t_def)
    have ids: "child_ids (tasks s) = set (child_id t) \<union> child_ids (tasks s0)"
      "all_ids (tasks s) = set (all_id t) \<union> all_ids (tasks s0)"
      "mset (task_keys (tasks s)) = mset (task_key t) + mset (task_keys (tasks s0))"
      using remove_nth_child_ids [OF True] remove_nth_all_ids [OF True] remove_nth_keys [OF True]
      by (simp_all add: s0_def t_def)
    have le: "outstanding s0 + int (task_count t) \<le> d"
      using assms o by (simp add: settled_def)
    have tight: "outstanding s0 + int (task_count t) = d \<longrightarrow>
                  set (child_id t) \<union> child_ids (tasks s0) \<subseteq> set (all_id t) \<union> all_ids (tasks s0)
                  \<and> mset (pendingPositions s0) = mset (task_key t) + mset (task_keys (tasks s0))"
      using assms o ids by (simp add: settled_def) (simp add: s0_def)
    show ?thesis
    proof (cases "resume E t r s0")
      case None
      then show ?thesis
        using assms True Resume by (simp add: step_def s0_def t_def batch_size_def)
    next
      case (Some s')
      from resume_settled [OF Some le c tight] show ?thesis
        using True Resume Some by (simp add: step_def s0_def t_def batch_size_def)
    qed
  next
    case False
    then show ?thesis
      using assms Resume by (simp add: step_def batch_size_def)
  qed
qed

lemma step_reported:
  "d \<le> transactionsReceivedCount s \<Longrightarrow> allowed d a s \<Longrightarrow>
     d + batch_size a \<le> transactionsReceivedCount (step E a s)"
  by (cases a)
     (auto simp: step_def cancel_def allowed_def batch_size_def parseTransactions_def
        resume_fields
        split: option.splits ParsedTransactionStreamData.splits)

lemma run_settled:
  "settled s d \<Longrightarrow> d \<le> transactionsReceivedCount s \<Longrightarrow> conforms E d as s \<Longrightarrow>
     \<exists>d'. settled (run E as s) d' \<and> d' \<le> transactionsReceivedCount (run E as s)"
proof (induction as arbitrary: s d)
  case Nil
  then show ?case by (auto simp: run_def)
next
  case (Cons a as)
  have "settled (step E a s) (d + batch_size a)"
    using Cons.prems(1) by (rule step_settled)
  moreover have "d + batch_size a \<le> transactionsReceivedCount (step E a s)"
    using Cons.prems(2,3) by (simp add: step_reported)
  moreover have "conforms E (d + batch_size a) as (step E a s)"
    using Cons.prems(3) by simp
  ultimately show ?case
    using Cons.IH [of "step E a s" "d + batch_size a"] by (simp add: run_def)
qed

lemma constructor_settled: "settled constructor 0"
  by (simp add: settled_def outstanding_def constructor_def)

lemma settled_processed: "settled s d \<Longrightarrow> transactionsProcessedCount s \<le> d"
  by (simp add: settled_def outstanding_def)

section \<open>Terminal signals\<close>

lemma record_not_terminal: "\<forall>c \<in> set cs. is_record c \<Longrightarrow> filter (\<lambda>c. c = None) cs = []"
  by (induction cs) (auto simp: is_record_def split: option.splits)

lemma terminals_simps [simp]:
  "terminals (spawn t s) = terminals s"
  "terminals (splicePending k s) = terminals s"
  "terminals (unhandledRejection e s) = terminals s"
  "terminals (rejectAll pid e s) = terminals s"
  "terminals (processBatch fe s) = terminals s"
  "terminals (processBatch_return fe s) = terminals s"
  "terminals (endLoop s) = terminals s"
  by (simp_all add: terminals_def)

text \<open>When the gate lets a terminal signal out in place of a chunk, nothing is pending.\<close>

lemma push_terminal:
  "terminals s < terminals (push c s) \<Longrightarrow> c \<noteq> None \<Longrightarrow> pendingPositions s = []"
  by (auto simp: terminals_def push_def split: if_splits)

lemma push_terminal_le: "terminals s \<le> terminals (push c s)"
  by (auto simp: terminals_def push_def)

lemma finish_terminal:
  "terminals s < terminals (finish s) \<Longrightarrow>
     receivedAllTransactions s \<and> transactionsReceivedCount s = transactionsProcessedCount s"
  by (auto simp: finish_def split: if_splits)

lemma processBatch_count_terminal:
  "terminals s < terminals (processBatch_count n s) \<Longrightarrow>
     transactionsReceivedCount s = transactionsProcessedCount s + int n"
proof -
  assume a: "terminals s < terminals (processBatch_count n s)"
  define s1 where "s1 = s\<lparr>transactionsProcessedCount := transactionsProcessedCount s + int n\<rparr>"
  have "terminals s1 = terminals s" by (simp add: s1_def terminals_def)
  with a have "terminals s1 < terminals (finish s1)"
    by (simp add: processBatch_count_def s1_def)
  from finish_terminal [OF this] show ?thesis by (simp add: s1_def)
qed

lemma processBatch_resume_terminal:
  assumes "terminals s < terminals (processBatch_resume E fe n out s)"
  shows "pendingPositions s = []
         \<or> transactionsReceivedCount s = transactionsProcessedCount s + int n"
proof (cases "n > 0 \<and> out \<noteq> []")
  case True
  define s1 where "s1 = s\<lparr>transactions := transactions s @ out\<rparr>"
  define s2 where "s2 = (push (Some (TransactionCount (length (transactions s @ out)))) s1)
                          \<lparr>nextId := Suc (nextId s)\<rparr>"
  obtain cs where f:
    "pushed (fold (createPosition E (nextId s)) (filter is_open out) s2) = pushed s2 @ cs"
    "\<forall>c \<in> set cs. is_record c"
    using fold_createPosition_effect [of E "nextId s" "filter is_open out" s2] by blast
  have r: "processBatch_resume E fe n out s
             = spawn (AwaitAll (nextId s) fe n)
                 (fold (createPosition E (nextId s)) (filter is_open out) s2)"
    using True by (simp add: processBatch_resume_def Let_def s2_def s1_def)
  have "terminals (processBatch_resume E fe n out s)
          = terminals (push (Some (TransactionCount (length (transactions s @ out)))) s1)"
    using f record_not_terminal [OF f(2)] by (simp add: r) (simp add: terminals_def s2_def)
  moreover have "terminals s1 = terminals s" by (simp add: s1_def terminals_def)
  ultimately have "terminals s1
                     < terminals (push (Some (TransactionCount (length (transactions s @ out)))) s1)"
    using assms by simp
  from push_terminal [OF this] show ?thesis by (simp add: s1_def)
next
  case False
  show ?thesis
  proof (cases "n > 0")
    case True
    with False have "terminals s < terminals (processBatch_count n s)"
      using assms by (simp add: processBatch_resume_def)
    from processBatch_count_terminal [OF this] show ?thesis by simp
  next
    case False
    then have "terminals s < terminals (finish s)"
      using assms by (simp add: processBatch_resume_def)
    from finish_terminal [OF this] False show ?thesis by simp
  qed
qed

lemma resume_terminal:
  assumes "resume E t r s = Some s'" and "terminals s < terminals s'"
  shows "pendingPositions s = []
         \<or> (transactionsReceivedCount s = transactionsProcessedCount s + int (task_count t)
            \<and> child_id t = [] \<and> set (all_id t) \<inter> child_ids (tasks s) = {})"
proof (cases t)
  case (AwaitNext fe n out)
  then have "s' = processBatch_resume E fe n out s"
    using assms(1) by (cases r; simp)
  with assms(2) processBatch_resume_terminal [of s E fe n out] AwaitNext show ?thesis
    by auto
next
  case (AwaitUpdate pid k txs pos)
  show ?thesis
  proof (cases r)
    case (Augmented pos')
    then have "terminals s < terminals (push (Some (PositionAndTransactions txs pos')) s)"
      using assms AwaitUpdate by auto
    from push_terminal [OF this] show ?thesis by simp
  qed (use assms AwaitUpdate in auto)
next
  case (AwaitAll pid fe n)
  then have c: "pid \<notin> child_ids (tasks s)"
    and s': "s' = processBatch_return fe (processBatch_count n s)"
    using assms(1) by (cases r; simp add: ex_child_iff split: if_splits)+
  then have "terminals s < terminals (processBatch_count n s)"
    using assms(2) by simp
  from processBatch_count_terminal [OF this] c AwaitAll show ?thesis by simp
qed (use assms in \<open>cases r; auto simp: terminals_def\<close>)+

lemma counted_no_all:
  "list_all counted ts \<Longrightarrow> sum_list (map task_count ts) = 0 \<Longrightarrow> all_ids ts = {}"
  by (induction ts) (auto simp: counted_def all_id_def task_count_def split: task.splits)

lemma no_child_no_keys: "child_ids ts = {} \<Longrightarrow> task_keys ts = []"
  by (induction ts) (auto simp: child_id_def task_key_def split: task.splits)

text \<open>
  When every transaction the source has delivered is counted as processed, no finalize
  step is under way.
\<close>

lemma quiet:
  assumes "settled s d" and "d \<le> transactionsProcessedCount s"
  shows "pendingPositions s = []"
proof -
  have "outstanding s \<le> d"
    using assms(1) by (simp add: settled_def)
  then have o: "outstanding s = d" "sum_list (map task_count (tasks s)) = 0"
    using assms(2) unfolding outstanding_def by linarith+
  then have "all_ids (tasks s) = {}"
    using assms(1) by (simp add: settled_def counted_no_all)
  then have "child_ids (tasks s) = {}"
    using assms(1) o by (auto simp: settled_def)
  then show ?thesis
    using assms(1) o by (simp add: settled_def no_child_no_keys)
qed

lemma quiet_but_one:
  assumes "settled s d" and "i < length (tasks s)"
    and "d \<le> transactionsProcessedCount s + int (task_count (tasks s ! i))"
    and "child_id (tasks s ! i) = []"
    and "set (all_id (tasks s ! i)) \<inter> child_ids (take i (tasks s) @ drop (Suc i) (tasks s)) = {}"
  shows "pendingPositions s = []"
proof -
  define rest where "rest = take i (tasks s) @ drop (Suc i) (tasks s)"
  have sum: "sum_list (map task_count (tasks s))
               = task_count (tasks s ! i) + sum_list (map task_count rest)"
    using remove_nth_sum [OF assms(2), of task_count] by (simp add: rest_def)
  have "outstanding s \<le> d"
    using assms(1) by (simp add: settled_def)
  then have o: "outstanding s = d" "sum_list (map task_count rest) = 0"
    using assms(3) sum unfolding outstanding_def by linarith+
  have "list_all counted rest"
    using assms(1) remove_nth_counted [OF assms(2)] by (simp add: settled_def rest_def)
  then have "all_ids rest = {}"
    using o by (simp add: counted_no_all)
  then have a: "all_ids (tasks s) = set (all_id (tasks s ! i))"
    using remove_nth_all_ids [OF assms(2)] by (simp add: rest_def)
  have c: "child_ids (tasks s) = child_ids rest"
    using remove_nth_child_ids [OF assms(2)] assms(4) by (simp add: rest_def)
  have "child_ids (tasks s) \<subseteq> all_ids (tasks s)"
    using assms(1) o by (simp add: settled_def)
  then have "child_ids (tasks s) = {}"
    using a c assms(5) by (auto simp: rest_def)
  then show ?thesis
    using assms(1) o by (simp add: settled_def no_child_no_keys)
qed

lemma step_terminal:
  assumes "settled s d" and "d \<le> transactionsReceivedCount s" and "allowed d a s"
    and "terminals s < terminals (step E a s)"
  shows "pendingPositions s = []"
proof (cases a)
  case (SourceData x)
  then have i: "transactionStream s \<noteq> None"
    and p: "terminals s < terminals (parseTransactions x s)"
    using assms(4) by (auto simp: step_def split: if_splits)
  show ?thesis
  proof (cases x)
    case (SignatureCount n)
    define s1 where "s1 = s\<lparr>transactionsReceivedCount := n\<rparr>"
    have t1: "terminals s1 = terminals s" by (simp add: s1_def terminals_def)
    have "terminals s1 < terminals (finish (push (Some (Forwarded x)) s1))"
      using p SignatureCount by (simp add: parseTransactions_def s1_def t1 [unfolded s1_def])
    then consider "terminals s1 < terminals (push (Some (Forwarded x)) s1)"
      | "terminals (push (Some (Forwarded x)) s1) < terminals (finish (push (Some (Forwarded x)) s1))"
      by linarith
    then show ?thesis
    proof cases
      case 1
      from push_terminal [OF this] show ?thesis by (simp add: s1_def)
    next
      case 2
      from finish_terminal [OF this] have "n = transactionsProcessedCount s"
        by (simp add: s1_def)
      moreover have "d \<le> n"
        using assms(3) SourceData SignatureCount by (simp add: allowed_def)
      ultimately show ?thesis
        using quiet [OF assms(1)] by simp
    qed
  next
    case AllSignaturesFound
    define s1 where "s1 = s\<lparr>receivedAllTransactions := True\<rparr>"
    have t1: "terminals s1 = terminals s" by (simp add: s1_def terminals_def)
    have "terminals s1 < terminals (finish (push (Some (Forwarded x)) s1))"
      using p AllSignaturesFound by (simp add: parseTransactions_def s1_def t1 [unfolded s1_def])
    then consider "terminals s1 < terminals (push (Some (Forwarded x)) s1)"
      | "terminals (push (Some (Forwarded x)) s1) < terminals (finish (push (Some (Forwarded x)) s1))"
      by linarith
    then show ?thesis
    proof cases
      case 1
      from push_terminal [OF this] show ?thesis by (simp add: s1_def)
    next
      case 2
      from finish_terminal [OF this]
      have "transactionsReceivedCount s = transactionsProcessedCount s"
        by (simp add: s1_def)
      then show ?thesis
        using quiet [OF assms(1)] assms(2) by simp
    qed
  next
    case (ParsedTransaction b)
    then show ?thesis
      using p by (simp add: parseTransactions_def terminals_def)
  qed
next
  case (Resume i r)
  then have i: "i < length (tasks s)"
    using assms(4) by (auto simp: step_def split: if_splits)
  define s0 where "s0 = s\<lparr>tasks := take i (tasks s) @ drop (Suc i) (tasks s)\<rparr>"
  have t0: "terminals s0 = terminals s" by (simp add: s0_def terminals_def)
  obtain s' where s': "resume E (tasks s ! i) r s0 = Some s'" "step E a s = s'"
    using assms(4) Resume i by (cases "resume E (tasks s ! i) r s0") (auto simp: step_def s0_def)
  then have "terminals s0 < terminals s'"
    using assms(4) t0 by simp
  from resume_terminal [OF s'(1) this]
  consider "pendingPositions s = []"
    | "transactionsReceivedCount s
         = transactionsProcessedCount s + int (task_count (tasks s ! i))"
      "child_id (tasks s ! i) = []"
      "set (all_id (tasks s ! i)) \<inter> child_ids (take i (tasks s) @ drop (Suc i) (tasks s)) = {}"
    by (auto simp: s0_def)
  then show ?thesis
  proof cases
    case 1
    then show ?thesis .
  next
    case 2
    show ?thesis
      using quiet_but_one [OF assms(1) i _ 2(2,3)] assms(2) 2(1) by simp
  qed
qed (use assms(4) in \<open>auto simp: step_def cancel_def terminals_def split: option.splits if_splits\<close>)

section \<open>Cancellation and the flags\<close>

lemma push_cancelled:
  "cancelled (push c s) \<Longrightarrow> \<not> cancelled s \<Longrightarrow> pendingPositions s = []"
  by (auto simp: push_def super_push_def split: if_splits)

lemma finish_cancelled:
  "cancelled (finish s) \<Longrightarrow> \<not> cancelled s \<Longrightarrow> pendingPositions s = []"
  using push_cancelled [of None "s\<lparr>done_flag := True\<rparr>"]
  by (auto simp: finish_def split: if_splits)

lemma processBatch_count_cancelled:
  "cancelled (processBatch_count n s) \<Longrightarrow> \<not> cancelled s \<Longrightarrow> pendingPositions s = []"
  using finish_cancelled
          [of "s\<lparr>transactionsProcessedCount := transactionsProcessedCount s + int n\<rparr>"]
  by (simp add: processBatch_count_def)

lemma processBatch_resume_cancelled:
  "cancelled (processBatch_resume E fe n out s) \<Longrightarrow> \<not> cancelled s \<Longrightarrow> pendingPositions s = []"
  using push_cancelled [of "Some (TransactionCount (length (transactions s @ out)))"
                           "s\<lparr>transactions := transactions s @ out\<rparr>"]
        processBatch_count_cancelled [of n s] finish_cancelled [of s]
  by (auto simp: processBatch_resume_def Let_def split: if_splits)

lemma parseTransactions_cancelled:
  "cancelled (parseTransactions x s) \<Longrightarrow> \<not> cancelled s \<Longrightarrow> pendingPositions s = []"
proof (cases x)
  case (SignatureCount n)
  assume a: "cancelled (parseTransactions x s)" "\<not> cancelled s"
  define s1 where "s1 = s\<lparr>transactionsReceivedCount := n\<rparr>"
  show ?thesis
  proof (cases "cancelled (push (Some (Forwarded x)) s1)")
    case True
    from push_cancelled [OF this] a(2) show ?thesis by (simp add: s1_def)
  next
    case False
    from finish_cancelled [OF _ this] a(1) SignatureCount show ?thesis
      by (simp add: parseTransactions_def s1_def)
  qed
next
  case AllSignaturesFound
  assume a: "cancelled (parseTransactions x s)" "\<not> cancelled s"
  define s1 where "s1 = s\<lparr>receivedAllTransactions := True\<rparr>"
  show ?thesis
  proof (cases "cancelled (push (Some (Forwarded x)) s1)")
    case True
    from push_cancelled [OF this] a(2) show ?thesis by (simp add: s1_def)
  next
    case False
    from finish_cancelled [OF _ this] a(1) AllSignaturesFound show ?thesis
      by (simp add: parseTransactions_def s1_def)
  qed
next
  case (ParsedTransaction b)
  then show "cancelled (parseTransactions x s) \<Longrightarrow> \<not> cancelled s \<Longrightarrow> ?thesis"
    by (simp add: parseTransactions_def)
qed

lemma resume_cancelled:
  assumes "resume E t r s = Some s'" and "cancelled s'" and "\<not> cancelled s"
  shows "pendingPositions s = []"
  using assms processBatch_resume_cancelled push_cancelled processBatch_count_cancelled
  by (cases "(E, t, r, s)" rule: resume.cases) (auto split: if_splits)

lemma step_cancelled:
  assumes "cancelled (step E a s)" and "\<not> cancelled s"
  shows "pendingPositions s = []"
proof (cases a)
  case (SourceData x)
  then show ?thesis
    using assms parseTransactions_cancelled [of x s] by (auto simp: step_def split: if_splits)
next
  case (Resume i r)
  then have i: "i < length (tasks s)"
    using assms by (auto simp: step_def split: if_splits)
  define s0 where "s0 = s\<lparr>tasks := take i (tasks s) @ drop (Suc i) (tasks s)\<rparr>"
  obtain s' where s': "resume E (tasks s ! i) r s0 = Some s'" "step E a s = s'"
    using assms Resume i by (cases "resume E (tasks s ! i) r s0") (auto simp: step_def s0_def)
  from resume_cancelled [OF s'(1)] assms s'(2) show ?thesis
    by (simp add: s0_def)
qed (use assms in \<open>auto simp: step_def cancel_def split: option.splits if_splits\<close>)

lemma run_terminal:
  "settled s d \<Longrightarrow> d \<le> transactionsReceivedCount s \<Longrightarrow> conforms E d (as @ [b]) s \<Longrightarrow>
     terminals (run E as s) < terminals (run E (as @ [b]) s) \<Longrightarrow>
     pendingPositions (run E as s) = []"
proof (induction as arbitrary: s d)
  case Nil
  then show ?case
    using step_terminal [of s d b E] by (simp add: run_def)
next
  case (Cons a as)
  have "settled (step E a s) (d + batch_size a)"
    using Cons.prems(1) by (rule step_settled)
  moreover have "d + batch_size a \<le> transactionsReceivedCount (step E a s)"
    using Cons.prems(2,3) by (simp add: step_reported)
  moreover have "conforms E (d + batch_size a) (as @ [b]) (step E a s)"
    using Cons.prems(3) by simp
  moreover have "terminals (run E as (step E a s)) < terminals (run E (as @ [b]) (step E a s))"
    using Cons.prems(4) by (simp add: run_def)
  ultimately show ?case
    using Cons.IH [of "step E a s" "d + batch_size a"] by (simp add: run_def)
qed

lemma step_receivedAll:
  "receivedAllTransactions s \<Longrightarrow> receivedAllTransactions (step E a s)"
  by (cases a)
     (auto simp: step_def cancel_def parseTransactions_def resume_fields
        split: option.splits ParsedTransactionStreamData.splits)

lemma run_receivedAll:
  "receivedAllTransactions s \<Longrightarrow> receivedAllTransactions (run E as s)"
  by (induction as arbitrary: s) (simp_all add: run_def step_receivedAll)

lemma run_append: "run E (as @ bs) s = run E bs (run E as s)"
  by (simp add: run_def)

section \<open>Records that are never pushed\<close>

lemma push_updating:
  "\<not> is_updating c \<Longrightarrow> filter is_updating (pushed (push c s)) = filter is_updating (pushed s)"
  by (simp add: push_def is_updating_def)

lemma finish_updating [simp]:
  "filter is_updating (pushed (finish s)) = filter is_updating (pushed s)"
  by (simp add: finish_def push_updating is_updating_def)

lemma record_not_updating: "\<forall>c \<in> set cs. is_record c \<Longrightarrow> filter is_updating cs = []"
  by (induction cs)
     (auto simp: is_record_def is_updating_def
        split: option.splits MeteoraPositionStreamData.splits)

lemma processBatch_resume_updating:
  "filter is_updating (pushed (processBatch_resume E fe n out s)) = filter is_updating (pushed s)"
proof (cases "n > 0 \<and> out \<noteq> []")
  case True
  define s2 where "s2 = (push (Some (TransactionCount (length (transactions s @ out))))
                     (s\<lparr>transactions := transactions s @ out\<rparr>))\<lparr>nextId := Suc (nextId s)\<rparr>"
  obtain cs where f:
    "pushed (fold (createPosition E (nextId s)) (filter is_open out) s2) = pushed s2 @ cs"
    "\<forall>c \<in> set cs. is_record c"
    using fold_createPosition_effect [of E "nextId s" "filter is_open out" s2] by blast
  have r: "processBatch_resume E fe n out s
             = spawn (AwaitAll (nextId s) fe n)
                 (fold (createPosition E (nextId s)) (filter is_open out) s2)"
    using True by (simp add: processBatch_resume_def Let_def s2_def)
  have "filter is_updating (pushed s2) = filter is_updating (pushed s)"
    by (simp add: s2_def push_updating is_updating_def)
  then show ?thesis
    using f(1) record_not_updating [OF f(2)] by (simp add: r)
next
  case False
  then show ?thesis
    by (auto simp: processBatch_resume_def processBatch_count_def)
qed

lemma resume_updating:
  "resume E t r s = Some s' \<Longrightarrow> filter is_updating (pushed s') = filter is_updating (pushed s)"
  by (cases "(E, t, r, s)" rule: resume.cases)
     (auto simp: processBatch_resume_updating push_updating is_updating_def
        processBatch_count_def split: if_splits)

lemma step_updating:
  "filter is_updating (pushed (step E a s)) = filter is_updating (pushed s)"
proof (cases a)
  case (SourceData x)
  then show ?thesis
    by (auto simp: step_def parseTransactions_def push_updating is_updating_def
          split: ParsedTransactionStreamData.splits)
next
  case (Resume i r)
  then show ?thesis
    using resume_updating
            [of E "tasks s ! i" r "s\<lparr>tasks := take i (tasks s) @ drop (Suc i) (tasks s)\<rparr>"]
    by (auto simp: step_def split: option.splits)
qed (auto simp: step_def cancel_def split: option.splits)

lemma run_updating:
  "filter is_updating (pushed (run E as s)) = filter is_updating (pushed s)"
  by (induction as arbitrary: s) (simp_all add: run_def step_updating)

lemma covered_key:
  assumes "pending_covers s" and "i < length (tasks s)"
    and "tasks s ! i = AwaitUpdate pid k txs pos"
  shows "pendingPositions s \<noteq> []"
proof -
  have "mset (task_key (tasks s ! i)) \<subseteq># mset (pendingPositions s)"
    using assms(1) remove_nth_keys [OF assms(2)]
    by (metis mset_subset_eq_add_left pending_covers_def subset_mset.order_trans)
  then have "k \<in># mset (pendingPositions s)"
    using assms(3) by (simp add: insert_subset_eq_iff)
  then show ?thesis by auto
qed

section \<open>Completion without cancellation\<close>

lemma single_end_push:
  "single_end s \<Longrightarrow> single_end (push (Some c) s)"
  by (auto simp: single_end_def push_def terminals_def split: if_splits)

lemma single_end_finish:
  "single_end s \<Longrightarrow> single_end (finish s)"
  by (auto simp: single_end_def finish_def push_def terminals_def split: if_splits)

lemma single_end_fields:
  "single_end (spawn u s) = single_end s"
  "single_end (splicePending k s) = single_end s"
  "single_end (unhandledRejection e s) = single_end s"
  "single_end (rejectAll pid e s) = single_end s"
  "single_end (processBatch fe s) = single_end s"
  "single_end (processBatch_return fe s) = single_end s"
  "single_end (endLoop s) = single_end s"
  "single_end (createPosition E pid t s) = single_end s"
  by (simp_all add: single_end_def terminals_def rejectAll_def createPosition_def Let_def
        push_def)

lemma single_end_fold:
  "single_end (fold (createPosition E pid) ts s) = single_end s"
  by (induction ts arbitrary: s) (simp_all add: single_end_fields)

lemma single_end_count:
  "single_end s \<Longrightarrow> single_end (processBatch_count n s)"
  using single_end_finish
          [of "s\<lparr>transactionsProcessedCount := transactionsProcessedCount s + int n\<rparr>"]
  by (simp add: processBatch_count_def single_end_def terminals_def)

lemma single_end_resume_batch:
  assumes "single_end s"
  shows "single_end (processBatch_resume E fe n out s)"
proof -
  have "single_end (s\<lparr>transactions := transactions s @ out\<rparr>)"
    using assms by (simp add: single_end_def terminals_def)
  from single_end_push [OF this, of "TransactionCount (length (transactions s @ out))"]
  have "single_end ((push (Some (TransactionCount (length (transactions s @ out))))
                      (s\<lparr>transactions := transactions s @ out\<rparr>))\<lparr>nextId := Suc (nextId s)\<rparr>)"
    by (simp add: single_end_def terminals_def)
  then show ?thesis
    using assms
    by (simp add: processBatch_resume_def Let_def single_end_fields single_end_fold
          single_end_count single_end_finish)
qed

lemma single_end_resume:
  assumes "resume E t r s = Some s'" and "single_end s"
  shows "single_end s'"
  using assms
  by (cases "(E, t, r, s)" rule: resume.cases)
     (auto simp: single_end_fields single_end_resume_batch single_end_push single_end_count
        single_end_def [of "_\<lparr>transactionStream := _\<rparr>"]
        single_end_def [of "_\<lparr>processor := _\<rparr>"] single_end_def [of s] terminals_def
        split: if_splits)

lemma single_end_step:
  assumes "single_end s" and "a \<noteq> Cancel"
  shows "single_end (step E a s)"
proof (cases a)
  case (SourceData x)
  have "single_end (s\<lparr>transactionsReceivedCount := n\<rparr>)"
    "single_end (s\<lparr>receivedAllTransactions := True\<rparr>)"
    "single_end (s\<lparr>processor := p\<rparr>)" for n p
    using assms(1) by (simp_all add: single_end_def terminals_def)
  then show ?thesis
    using assms(1) SourceData
    by (auto simp: step_def parseTransactions_def single_end_fields
          intro!: single_end_finish single_end_push
          split: ParsedTransactionStreamData.splits)
next
  case SourceEnd
  have "single_end (s\<lparr>receivedAllTransactions := True\<rparr>)"
    using assms(1) by (simp add: single_end_def terminals_def)
  then show ?thesis
    using assms(1) SourceEnd by (simp add: step_def single_end_fields)
next
  case (SourceError e)
  then show ?thesis
    using assms(1) by (auto simp: step_def single_end_def terminals_def split: if_splits)
next
  case (Resume i r)
  have "single_end (s\<lparr>tasks := take i (tasks s) @ drop (Suc i) (tasks s)\<rparr>)"
    using assms(1) by (simp add: single_end_def terminals_def)
  then show ?thesis
    using assms(1) Resume
      single_end_resume
        [of E "tasks s ! i" r "s\<lparr>tasks := take i (tasks s) @ drop (Suc i) (tasks s)\<rparr>"]
    by (auto simp: step_def split: option.splits)
qed (use assms in simp)

lemma single_end_run:
  "single_end s \<Longrightarrow> list_all (\<lambda>a. a \<noteq> Cancel) as \<Longrightarrow> single_end (run E as s)"
  by (induction as arbitrary: s) (simp_all add: run_def single_end_step)

lemma single_end_constructor: "single_end constructor"
  by (simp add: single_end_def terminals_def constructor_def)

section \<open>What a handler finds when it ends the stream\<close>

lemma checked_same:
  "\<not> cancelling s' \<Longrightarrow> \<not> cancelled s' \<Longrightarrow> terminals s' = terminals s \<Longrightarrow>
     done_flag s' = done_flag s \<Longrightarrow> checked s s'"
  by (simp add: checked_def)

lemma checked_finish:
  "\<not> cancelling s \<Longrightarrow> \<not> cancelled s \<Longrightarrow> terminals s = terminals s0 \<Longrightarrow>
     done_flag s = done_flag s0 \<Longrightarrow> checked s0 (finish s)"
  by (auto simp: checked_def finish_def push_def terminals_def)

lemma checked_tasks:
  "checked s0 s \<Longrightarrow> checked s0 (spawn t s)"
  "checked s0 s \<Longrightarrow> checked s0 (processBatch_return fe s)"
  by (simp_all add: checked_def terminals_def)

lemma push_uncancelled:
  "\<not> cancelling s \<Longrightarrow> \<not> cancelled s \<Longrightarrow>
     \<not> cancelled (push (Some c) s) \<and> terminals (push (Some c) s) = terminals s
     \<and> done_flag (push (Some c) s) = done_flag s"
  by (simp add: push_def terminals_def)

lemma checked_count:
  "\<not> cancelling s \<Longrightarrow> \<not> cancelled s \<Longrightarrow> checked s (processBatch_count n s)"
  unfolding processBatch_count_def
  by (rule checked_finish) (simp_all add: terminals_def)

lemma checked_parseTransactions:
  assumes "\<not> cancelling s" and "\<not> cancelled s"
  shows "checked s (parseTransactions x s)"
proof (cases x)
  case (SignatureCount n)
  define s1 where "s1 = s\<lparr>transactionsReceivedCount := n\<rparr>"
  have "\<not> cancelling s1" "\<not> cancelled s1" "terminals s1 = terminals s"
    "done_flag s1 = done_flag s"
    using assms by (simp_all add: s1_def terminals_def)
  with push_uncancelled [of s1 "Forwarded x"]
  have "checked s (finish (push (Some (Forwarded x)) s1))"
    by (intro checked_finish) simp_all
  then show ?thesis
    using SignatureCount by (simp add: parseTransactions_def s1_def)
next
  case AllSignaturesFound
  define s1 where "s1 = s\<lparr>receivedAllTransactions := True\<rparr>"
  have "\<not> cancelling s1" "\<not> cancelled s1" "terminals s1 = terminals s"
    "done_flag s1 = done_flag s"
    using assms by (simp_all add: s1_def terminals_def)
  with push_uncancelled [of s1 "Forwarded x"]
  have "checked s (finish (push (Some (Forwarded x)) s1))"
    by (intro checked_finish) simp_all
  then show ?thesis
    using AllSignaturesFound by (simp add: parseTransactions_def s1_def)
next
  case (ParsedTransaction b)
  then show ?thesis
    using assms by (simp add: parseTransactions_def checked_def terminals_def)
qed

lemma fold_createPosition_terminals:
  "terminals (fold (createPosition E pid) ts s) = terminals s"
proof -
  obtain cs where "pushed (fold (createPosition E pid) ts s) = pushed s @ cs"
    "\<forall>c \<in> set cs. is_record c"
    using fold_createPosition_effect [of E pid ts s] by blast
  then show ?thesis
    using record_not_terminal [of cs] by (simp add: terminals_def)
qed

lemma checked_resume_batch:
  assumes "\<not> cancelling s" and "\<not> cancelled s"
  shows "checked s (processBatch_resume E fe n out s)"
proof (cases "n > 0 \<and> out \<noteq> []")
  case True
  define s1 where "s1 = s\<lparr>transactions := transactions s @ out\<rparr>"
  define s2 where "s2 = (push (Some (TransactionCount (length (transactions s @ out)))) s1)
                          \<lparr>nextId := Suc (nextId s)\<rparr>"
  have 1: "\<not> cancelling s1" "\<not> cancelled s1" "terminals s1 = terminals s"
    "done_flag s1 = done_flag s"
    using assms by (simp_all add: s1_def terminals_def)
  have 2: "\<not> cancelling s2" "\<not> cancelled s2" "terminals s2 = terminals s"
    "done_flag s2 = done_flag s"
    using 1 push_uncancelled [of s1 "TransactionCount (length (transactions s @ out))"]
    by (simp_all add: s2_def terminals_def)
  have r: "processBatch_resume E fe n out s
             = spawn (AwaitAll (nextId s) fe n)
                 (fold (createPosition E (nextId s)) (filter is_open out) s2)"
    using True by (simp add: processBatch_resume_def Let_def s2_def s1_def)
  show ?thesis
    unfolding r
    by (intro checked_tasks checked_same) (simp_all add: 2 fold_createPosition_terminals)
next
  case False
  then show ?thesis
    using assms checked_count [of s n] checked_finish [of s s]
    by (auto simp: processBatch_resume_def checked_tasks)
qed

lemma checked_resume:
  assumes "resume E t r s = Some s'" and "\<not> cancelling s" and "\<not> cancelled s"
  shows "checked s s'"
proof (cases t)
  case (AwaitNext fe n out)
  then show ?thesis
    using assms checked_resume_batch [of s E fe n out] by (cases r) auto
next
  case (AwaitUpdate pid k txs pos)
  then show ?thesis
    using assms push_uncancelled [of s]
    by (cases r) (auto simp: checked_def terminals_def)
next
  case (AwaitAll pid fe n)
  then show ?thesis
    using assms checked_count [of s n]
    by (cases r) (auto simp: checked_tasks split: if_splits)
qed (use assms in \<open>cases r; auto simp: checked_def terminals_def\<close>)+

lemma checked_step:
  assumes "\<not> cancelling s" and "\<not> cancelled s" and "a \<noteq> Cancel"
  shows "checked s (step E a s)"
proof (cases a)
  case (SourceData x)
  then show ?thesis
    using assms checked_parseTransactions [of s x]
    by (simp add: step_def checked_def)
next
  case SourceEnd
  then show ?thesis
    using assms by (simp add: step_def checked_def terminals_def)
next
  case (SourceError e)
  then show ?thesis
    using assms by (simp add: step_def checked_def terminals_def)
next
  case (Resume i r)
  define s0 where "s0 = s\<lparr>tasks := take i (tasks s) @ drop (Suc i) (tasks s)\<rparr>"
  have 0: "\<not> cancelling s0" "\<not> cancelled s0" "terminals s0 = terminals s"
    "done_flag s0 = done_flag s"
    using assms by (simp_all add: s0_def terminals_def)
  have "checked s0 s'" if "resume E (tasks s ! i) r s0 = Some s'" for s'
    using that 0 by (intro checked_resume)
  then have "checked s s'" if "resume E (tasks s ! i) r s0 = Some s'" for s'
    using that 0 by (simp add: checked_def)
  then show ?thesis
    using assms Resume
    by (auto simp: step_def s0_def [symmetric] checked_def [of s s] split: option.splits)
qed (use assms in simp)

lemma step_terminal_found:
  assumes "\<not> cancelling s" and "\<not> cancelled s" and "terminals s < terminals (step E a s)"
  shows "\<not> done_flag s \<and> done_flag (step E a s)
         \<and> receivedAllTransactions (step E a s)
         \<and> transactionsReceivedCount (step E a s) = transactionsProcessedCount (step E a s)
         \<and> terminals (step E a s) = Suc (terminals s)"
proof (cases "a = Cancel")
  case True
  then show ?thesis
    using assms(3) by (simp add: step_def cancel_def terminals_def split: option.splits)
next
  case False
  from checked_step [OF assms(1,2) False, of E] assms(3) show ?thesis
    by (auto simp: checked_def)
qed

section \<open>Where a record comes from\<close>

lemma built_for_iff:
  "built_for E log txs \<longleftrightarrow>
     (\<exists>n t. t \<in> set (take n log) \<and> is_open t \<and> txs = aggregate E (take n log) (position t))"
proof
  assume "built_for E log txs"
  then show "\<exists>n t. t \<in> set (take n log) \<and> is_open t
               \<and> txs = aggregate E (take n log) (position t)"
    unfolding built_for_def list_ex_iff by blast
next
  assume "\<exists>n t. t \<in> set (take n log) \<and> is_open t
            \<and> txs = aggregate E (take n log) (position t)"
  then obtain n t where nt: "t \<in> set (take n log)" "is_open t"
    "txs = aggregate E (take n log) (position t)"
    by blast
  define m where "m = min n (length log)"
  have "take m log = take n log" by (simp add: m_def min_def)
  moreover have "m < Suc (length log)" by (simp add: m_def)
  ultimately show "built_for E log txs"
    using nt unfolding built_for_def list_ex_iff
    by (intro bexI [of _ m] bexI [of _ t]) auto
qed

lemma built_for_append: "built_for E log txs \<Longrightarrow> built_for E (log @ out) txs"
proof -
  assume "built_for E log txs"
  then obtain n t where nt: "t \<in> set (take n log)" "is_open t"
    "txs = aggregate E (take n log) (position t)"
    by (auto simp: built_for_iff)
  define m where "m = min n (length log)"
  have "take m (log @ out) = take n log" by (simp add: m_def min_def)
  with nt show ?thesis
    unfolding built_for_iff by metis
qed

lemma built_for_whole:
  "t \<in> set log \<Longrightarrow> is_open t \<Longrightarrow> built_for E log (aggregate E log (position t))"
  unfolding built_for_iff
  by (rule exI [of _ "length log"], rule exI [of _ t]) simp

lemma record_ok_append: "record_ok E log c \<Longrightarrow> record_ok E (log @ out) c"
  by (auto simp: record_ok_def built_for_append
        split: option.splits MeteoraPositionStreamData.splits)

lemma task_ok_append: "task_ok E log u \<Longrightarrow> task_ok E (log @ out) u"
  by (auto simp: task_ok_def built_for_append split: task.splits)

lemma record_ok_simps [simp]:
  "record_ok E log None"
  "record_ok E log (Some (Forwarded d))"
  "record_ok E log (Some (TransactionCount n))"
  "record_ok E log (Some (PositionAndTransactions txs p)) = built_for E log txs"
  by (simp_all add: record_ok_def)

lemma task_ok_simps [simp]:
  "task_ok E log AwaitPairs"
  "task_ok E log (AwaitTransform fe b)"
  "task_ok E log (AwaitNext fe n out)"
  "task_ok E log (AwaitUpdate pid k txs p) = built_for E log txs"
  "task_ok E log (AwaitCreated pid k)"
  "task_ok E log (AwaitAll pid fe n)"
  "task_ok E log AwaitDelay"
  by (simp_all add: task_ok_def)

lemma push_records_ok:
  "record_ok E log c \<Longrightarrow> list_all (record_ok E log) (pushed s) \<Longrightarrow>
     list_all (record_ok E log) (pushed (push c s))"
  by (simp add: push_def)

lemma finish_records_ok:
  "list_all (record_ok E log) (pushed s) \<Longrightarrow> list_all (record_ok E log) (pushed (finish s))"
  by (simp add: finish_def push_records_ok)

lemma count_records_ok:
  "list_all (record_ok E log) (pushed s) \<Longrightarrow>
     list_all (record_ok E log) (pushed (processBatch_count n s))"
  by (simp add: processBatch_count_def finish_records_ok)

text \<open>One call of \<open>_createPosition\<close>, and the calls for a whole output, against the log.\<close>

lemma fold_createPosition_exact:
  "pushed (fold (createPosition E pid) (filter is_open out) s)
     = pushed s @ closed_records E (transactions s) out
   \<and> tasks (fold (createPosition E pid) (filter is_open out) s)
     = tasks s @ augmentations E pid (transactions s) out"
proof (induction out arbitrary: s)
  case Nil
  show ?case by (simp add: closed_records_def augmentations_def)
next
  case (Cons t out)
  show ?case
  proof (cases "is_open t")
    case False
    then show ?thesis
      using Cons.IH [of s] by (simp add: closed_records_def augmentations_def)
  next
    case True
    have 1: "pushed (createPosition E pid t s)
               = pushed s @ closed_records E (transactions s) [t]"
      "tasks (createPosition E pid t s) = tasks s @ augmentations E pid (transactions s) [t]"
      using True
      by (simp_all add: createPosition_def Let_def closed_records_def augmentations_def
            aggregate_def closes_def push_def)
    have 2: "closed_records E (transactions s) (t # out)
               = closed_records E (transactions s) [t] @ closed_records E (transactions s) out"
      "augmentations E pid (transactions s) (t # out)
               = augmentations E pid (transactions s) [t]
                   @ augmentations E pid (transactions s) out"
      by (simp_all add: closed_records_def augmentations_def)
    show ?thesis
      using True Cons.IH [of "createPosition E pid t s"] 1 2 by simp
  qed
qed

lemma push_log [simp]:
  "pushed (push c (s\<lparr>transactions := log\<rparr>)) = pushed (push c s)"
  by (simp add: push_def)

lemma processBatch_resume_exact:
  assumes "0 < n" and "out \<noteq> []"
  shows "pushed (processBatch_resume E fe n out s)
           = pushed (push (Some (TransactionCount (length (transactions s @ out)))) s)
               @ closed_records E (transactions s @ out) out"
    and "tasks (processBatch_resume E fe n out s)
           = tasks s @ augmentations E (nextId s) (transactions s @ out) out
               @ [AwaitAll (nextId s) fe n]"
    and "transactions (processBatch_resume E fe n out s) = transactions s @ out"
proof -
  define s2 where "s2 = (push (Some (TransactionCount (length (transactions s @ out))))
                     (s\<lparr>transactions := transactions s @ out\<rparr>))\<lparr>nextId := Suc (nextId s)\<rparr>"
  have r: "processBatch_resume E fe n out s
             = spawn (AwaitAll (nextId s) fe n)
                 (fold (createPosition E (nextId s)) (filter is_open out) s2)"
    using assms by (simp add: processBatch_resume_def Let_def s2_def)
  have t2: "transactions s2 = transactions s @ out" "tasks s2 = tasks s"
    "pushed s2 = pushed (push (Some (TransactionCount (length (transactions s @ out)))) s)"
    by (simp_all add: s2_def)
  show "pushed (processBatch_resume E fe n out s)
           = pushed (push (Some (TransactionCount (length (transactions s @ out)))) s)
               @ closed_records E (transactions s @ out) out"
    and "tasks (processBatch_resume E fe n out s)
           = tasks s @ augmentations E (nextId s) (transactions s @ out) out
               @ [AwaitAll (nextId s) fe n]"
    and "transactions (processBatch_resume E fe n out s) = transactions s @ out"
    using fold_createPosition_exact [of E "nextId s" out s2] t2 by (simp_all add: r)
qed

lemma closed_records_ok:
  "set out \<subseteq> set log \<Longrightarrow> list_all (record_ok E log) (closed_records E log out)"
  by (auto simp: closed_records_def list_all_iff built_for_whole)

lemma augmentations_ok:
  "set out \<subseteq> set log \<Longrightarrow> list_all (task_ok E log) (augmentations E pid log out)"
  by (auto simp: augmentations_def list_all_iff built_for_whole)

lemma traced_resume_batch:
  assumes "traced E s"
  shows "traced E (processBatch_resume E fe n out s)"
proof (cases "0 < n \<and> out \<noteq> []")
  case True
  define log where "log = transactions s @ out"
  have p: "list_all (record_ok E log) (pushed s)" "list_all (task_ok E log) (tasks s)"
    using assms by (auto simp: traced_def log_def list_all_iff record_ok_append task_ok_append)
  have "list_all (record_ok E log)
          (pushed (push (Some (TransactionCount (length (transactions s @ out)))) s))"
    using p(1) by (simp add: push_records_ok)
  moreover have "list_all (record_ok E log) (closed_records E log out)"
    "list_all (task_ok E log) (augmentations E (nextId s) log out)"
    by (simp_all add: closed_records_ok augmentations_ok log_def)
  ultimately show ?thesis
    using True p(2) processBatch_resume_exact [of n out E fe s]
    by (simp add: traced_def log_def)
next
  case False
  then show ?thesis
    using assms
    by (auto simp: processBatch_resume_def traced_def count_records_ok finish_records_ok)
qed

lemma list_all_filter: "list_all P ts \<Longrightarrow> list_all P (filter Q ts)"
  by (induction ts) auto

lemma traced_resume:
  assumes "resume E t r s = Some s'" and "traced E s" and "task_ok E (transactions s) t"
  shows "traced E s'"
proof (cases t)
  case (AwaitNext fe n out)
  then show ?thesis
    using assms traced_resume_batch [of E s fe n out] by (cases r) auto
next
  case (AwaitUpdate pid k txs pos)
  then show ?thesis
    using assms by (cases r) (auto simp: traced_def push_records_ok list_all_filter)
next
  case (AwaitAll pid fe n)
  then show ?thesis
    using assms by (cases r) (auto simp: traced_def count_records_ok split: if_splits)
next
  case AwaitDelay
  obtain new where "tasks (endLoop s) = tasks s @ new" "all_ids new = {}" "child_ids new = {}"
    "task_keys new = []"
    using endLoop_shape [of s] by blast
  moreover have "list_all (task_ok E (transactions s)) new"
    if "tasks (endLoop s) = tasks s @ new" for new
    using that
    by (auto simp: endLoop_def processBatch_def next_start_def
          split: if_splits option.splits list.splits)
  ultimately show ?thesis
    using assms AwaitDelay by (cases r) (auto simp: traced_def)
qed (use assms in \<open>cases r; auto simp: traced_def\<close>)+

lemma processBatch_traced:
  "list_all (task_ok E log) (tasks s) \<Longrightarrow> list_all (task_ok E log) (tasks (processBatch fe s))"
  by (auto simp: processBatch_def next_start_def split: if_splits option.splits list.splits)

lemma remove_nth_all:
  "i < length ts \<Longrightarrow> list_all P ts \<Longrightarrow> P (ts ! i) \<and> list_all P (take i ts @ drop (Suc i) ts)"
  by (auto simp: list_all_iff dest: in_set_takeD in_set_dropD)

lemma traced_step:
  assumes "traced E s"
  shows "traced E (step E a s)"
proof (cases a)
  case Cancel
  then show ?thesis
    using assms by (auto simp: step_def cancel_def traced_def split: option.splits)
next
  case (SourceData x)
  then show ?thesis
    using assms
    by (auto simp: step_def parseTransactions_def traced_def processBatch_traced
          finish_records_ok push_records_ok split: ParsedTransactionStreamData.splits)
next
  case SourceEnd
  then show ?thesis
    using assms by (auto simp: step_def endLoop_def traced_def processBatch_traced)
next
  case (SourceError e)
  then show ?thesis
    using assms by (auto simp: step_def traced_def)
next
  case (Resume i r)
  show ?thesis
  proof (cases "i < length (tasks s)")
    case True
    define s0 where "s0 = s\<lparr>tasks := take i (tasks s) @ drop (Suc i) (tasks s)\<rparr>"
    have "task_ok E (transactions s0) (tasks s ! i)" "traced E s0"
      using assms remove_nth_all [OF True, of "task_ok E (transactions s)"]
      by (simp_all add: traced_def s0_def)
    then have "traced E s'" if "resume E (tasks s ! i) r s0 = Some s'" for s'
      using that traced_resume by blast
    then show ?thesis
      using assms True Resume by (auto simp: step_def s0_def split: option.splits)
  next
    case False
    then show ?thesis
      using assms Resume by (simp add: step_def)
  qed
qed

lemma traced_run: "traced E s \<Longrightarrow> traced E (run E as s)"
  by (induction as arbitrary: s) (simp_all add: run_def traced_step)

lemma traced_constructor: "traced E constructor"
  by (simp add: traced_def constructor_def)

section \<open>One terminal signal for each way to end\<close>



lemma ended_by_fields [simp]:
  "ended_by (spawn u s) = ended_by s"
  "ended_by (splicePending k s) = ended_by s"
  "ended_by (unhandledRejection e s) = ended_by s"
  "ended_by (rejectAll pid e s) = ended_by s"
  "ended_by (processBatch fe s) = ended_by s"
  "ended_by (processBatch_return fe s) = ended_by s"
  "ended_by (endLoop s) = ended_by s"
  "ended_by (fold (createPosition E pid) ts s) = ended_by s"
  by (simp_all add: ended_by_def)









lemma processBatch_resume_pending:
  assumes "0 < n" and "out \<noteq> []"
  shows "mset (pendingPositions (processBatch_resume E fe n out s))
           = mset (pendingPositions s)
               + mset (task_keys (augmentations E (nextId s) (transactions s @ out) out))"
proof -
  define s2 where "s2 = (push (Some (TransactionCount (length (transactions s @ out))))
                     (s\<lparr>transactions := transactions s @ out\<rparr>))\<lparr>nextId := Suc (nextId s)\<rparr>"
  define s3 where "s3 = fold (createPosition E (nextId s)) (filter is_open out) s2"
  have r: "processBatch_resume E fe n out s = spawn (AwaitAll (nextId s) fe n) s3"
    using assms by (simp add: processBatch_resume_def Let_def s2_def s3_def)
  obtain new where f: "tasks s3 = tasks s2 @ new"
    "mset (pendingPositions s3) = mset (pendingPositions s2) + mset (task_keys new)"
    using fold_createPosition_effect [of E "nextId s" "filter is_open out" s2]
    unfolding s3_def by blast
  have "tasks s3 = tasks s2 @ augmentations E (nextId s) (transactions s2) out"
    using fold_createPosition_exact [of E "nextId s" out s2] by (simp add: s3_def)
  then have "new = augmentations E (nextId s) (transactions s @ out) out"
    using f(1) by (simp add: s2_def)
  then show ?thesis
    using f(2) by (simp add: r) (simp add: s2_def)
qed

section \<open>The claims\<close>




text \<open>
  C2. The gate of \<open>push\<close>, in this order: with a pending position the chunk is emitted;
  otherwise, with cancellation requested and not finalized, the terminal signal is
  emitted in its place and cancellation is finalized; otherwise, with cancellation
  finalized, the chunk is dropped; otherwise the chunk is emitted.
\<close>

theorem push_gate:
  "(pendingPositions s \<noteq> [] \<longrightarrow> push chunk s = s\<lparr>pushed := pushed s @ [chunk]\<rparr>) \<and>
   (pendingPositions s = [] \<and> cancelling s \<and> \<not> cancelled s \<longrightarrow>
      push chunk s = s\<lparr>cancelled := True, pushed := pushed s @ [None]\<rparr>) \<and>
   (pendingPositions s = [] \<and> \<not> (cancelling s \<and> \<not> cancelled s) \<and> cancelled s \<longrightarrow>
      push chunk s = s) \<and>
   (pendingPositions s = [] \<and> \<not> (cancelling s \<and> \<not> cancelled s) \<and> \<not> cancelled s \<longrightarrow>
      push chunk s = s\<lparr>pushed := pushed s @ [chunk]\<rparr>)"
  by (simp add: push_def super_push_def)

theorem push_gate_witness:
  "push (Some (TransactionCount 1)) (constructor\<lparr>pendingPositions := [''P1''], cancelling := True\<rparr>)
     = constructor\<lparr>pendingPositions := [''P1''], cancelling := True,
         pushed := [Some (TransactionCount 1)]\<rparr>
   \<and> push (Some (TransactionCount 1)) (constructor\<lparr>cancelling := True\<rparr>)
     = constructor\<lparr>cancelling := True, cancelled := True, pushed := [None]\<rparr>
   \<and> push (Some (TransactionCount 1)) (constructor\<lparr>cancelling := True, cancelled := True\<rparr>)
     = constructor\<lparr>cancelling := True, cancelled := True\<rparr>
   \<and> push (Some (TransactionCount 1)) constructor
     = constructor\<lparr>pushed := [Some (TransactionCount 1)]\<rparr>"
  using push_gate [of "constructor\<lparr>pendingPositions := [''P1''], cancelling := True\<rparr>"
                      "Some (TransactionCount 1)"]
        push_gate [of "constructor\<lparr>cancelling := True\<rparr>" "Some (TransactionCount 1)"]
        push_gate [of "constructor\<lparr>cancelling := True, cancelled := True\<rparr>"
                      "Some (TransactionCount 1)"]
        push_gate [of constructor "Some (TransactionCount 1)"]
  by (simp add: constructor_def)

text \<open>
  C3. Without cancellation, \<open>_finish\<close> hands the terminal signal to \<open>super.push\<close> iff all
  signatures are found, the processed count equals the received count and the stream is
  not done; the check runs on the updated counters after every forwarded progress
  signal and at the end of every batch drain: after an empty poll, after a batch without
  output, and after \<open>Promise.all\<close> for a batch with output. In an execution without
  \<open>cancel()\<close> the terminal signal has been pushed once when \<open>_done\<close> is set and not at
  all before. And only if: a handler that starts without cancellation and pushes a
  terminal signal pushes one, sets \<open>_done\<close>, and leaves the stream with all signatures
  found and the processed count equal to the received count. (The \<open>end\<close> of the source
  sets \<open>_receivedAllTransactions\<close> and runs the check only through a batch it drains.)
\<close>

theorem completion_check:
  assumes "\<not> cancelling s" and "\<not> cancelled s"
  shows
   "pushed (finish s)
      = pushed s @ (if receivedAllTransactions s
                       \<and> transactionsReceivedCount s = transactionsProcessedCount s
                       \<and> \<not> done_flag s then [None] else [])
    \<and> pushed (parseTransactions (SignatureCount n) s)
      = pushed s @ [Some (Forwarded (SignatureCount n))]
          @ (if receivedAllTransactions s \<and> n = transactionsProcessedCount s \<and> \<not> done_flag s
             then [None] else [])
    \<and> pushed (parseTransactions AllSignaturesFound s)
      = pushed s @ [Some (Forwarded AllSignaturesFound)]
          @ (if transactionsReceivedCount s = transactionsProcessedCount s \<and> \<not> done_flag s
             then [None] else [])
    \<and> pushed (processBatch_resume E fromEnd 0 out s)
      = pushed s @ (if receivedAllTransactions s
                       \<and> transactionsReceivedCount s = transactionsProcessedCount s
                       \<and> \<not> done_flag s then [None] else [])
    \<and> pushed (processBatch_resume E fromEnd (Suc m) [] s)
      = pushed s @ (if receivedAllTransactions s
                       \<and> transactionsReceivedCount s = transactionsProcessedCount s + int (Suc m)
                       \<and> \<not> done_flag s then [None] else [])
    \<and> (\<not> list_ex (is_child pid) (tasks s) \<longrightarrow>
         map_option pushed (resume E (AwaitAll pid fromEnd m) Continue s)
           = Some (pushed s @ (if receivedAllTransactions s
                       \<and> transactionsReceivedCount s = transactionsProcessedCount s + int m
                       \<and> \<not> done_flag s then [None] else [])))
    \<and> (list_all (\<lambda>a. a \<noteq> Cancel) as \<longrightarrow>
         terminals (run E as constructor)
           = (if done_flag (run E as constructor) then 1 else 0))
    \<and> (terminals s < terminals (step E a s) \<longrightarrow>
         \<not> done_flag s \<and> done_flag (step E a s)
         \<and> receivedAllTransactions (step E a s)
         \<and> transactionsReceivedCount (step E a s) = transactionsProcessedCount (step E a s)
         \<and> terminals (step E a s) = Suc (terminals s))"
proof -
  have "list_all (\<lambda>a. a \<noteq> Cancel) as \<longrightarrow>
         terminals (run E as constructor)
           = (if done_flag (run E as constructor) then 1 else 0)"
    using single_end_run [OF single_end_constructor, of as E]
    by (simp add: single_end_def)
  moreover have "terminals s < terminals (step E a s) \<longrightarrow>
         \<not> done_flag s \<and> done_flag (step E a s)
         \<and> receivedAllTransactions (step E a s)
         \<and> transactionsReceivedCount (step E a s) = transactionsProcessedCount (step E a s)
         \<and> terminals (step E a s) = Suc (terminals s)"
    using step_terminal_found [OF assms, of E a] by blast
  moreover have "pushed (finish s)
      = pushed s @ (if receivedAllTransactions s
                       \<and> transactionsReceivedCount s = transactionsProcessedCount s
                       \<and> \<not> done_flag s then [None] else [])
    \<and> pushed (parseTransactions (SignatureCount n) s)
      = pushed s @ [Some (Forwarded (SignatureCount n))]
          @ (if receivedAllTransactions s \<and> n = transactionsProcessedCount s \<and> \<not> done_flag s
             then [None] else [])
    \<and> pushed (parseTransactions AllSignaturesFound s)
      = pushed s @ [Some (Forwarded AllSignaturesFound)]
          @ (if transactionsReceivedCount s = transactionsProcessedCount s \<and> \<not> done_flag s
             then [None] else [])
    \<and> pushed (processBatch_resume E fromEnd 0 out s)
      = pushed s @ (if receivedAllTransactions s
                       \<and> transactionsReceivedCount s = transactionsProcessedCount s
                       \<and> \<not> done_flag s then [None] else [])
    \<and> pushed (processBatch_resume E fromEnd (Suc m) [] s)
      = pushed s @ (if receivedAllTransactions s
                       \<and> transactionsReceivedCount s = transactionsProcessedCount s + int (Suc m)
                       \<and> \<not> done_flag s then [None] else [])
    \<and> (\<not> list_ex (is_child pid) (tasks s) \<longrightarrow>
         map_option pushed (resume E (AwaitAll pid fromEnd m) Continue s)
           = Some (pushed s @ (if receivedAllTransactions s
                       \<and> transactionsReceivedCount s = transactionsProcessedCount s + int m
                       \<and> \<not> done_flag s then [None] else [])))"
    using assms
    by (simp add: finish_def push_def parseTransactions_def processBatch_resume_def
          processBatch_count_def)
  ultimately show ?thesis
    by blast
qed

theorem completion_check_witness:
  "\<not> cancelling (constructor\<lparr>receivedAllTransactions := True\<rparr>)
   \<and> \<not> cancelled (constructor\<lparr>receivedAllTransactions := True\<rparr>)
   \<and> \<not> list_ex (is_child 0) (tasks (constructor\<lparr>receivedAllTransactions := True\<rparr>))
   \<and> pushed (finish (constructor\<lparr>receivedAllTransactions := True\<rparr>)) = [None]
   \<and> pushed (parseTransactions (SignatureCount 3) (constructor\<lparr>receivedAllTransactions := True\<rparr>))
       = [Some (Forwarded (SignatureCount 3))]
   \<and> map_option pushed
       (resume plain (AwaitAll 0 False 0) Continue (constructor\<lparr>receivedAllTransactions := True\<rparr>))
       = Some [None]
   \<and> list_all (\<lambda>a. a \<noteq> Cancel) (scenarioA @ [Resume 0 Continue])
   \<and> done_flag (run plain (scenarioA @ [Resume 0 Continue]) constructor)
   \<and> terminals (run plain (scenarioA @ [Resume 0 Continue]) constructor) = 1
   \<and> \<not> cancelling (run plain scenarioA constructor)
   \<and> \<not> cancelled (run plain scenarioA constructor)
   \<and> terminals (run plain scenarioA constructor)
       < terminals (step plain (Resume 0 Continue) (run plain scenarioA constructor))
   \<and> receivedAllTransactions (step plain (Resume 0 Continue) (run plain scenarioA constructor))
   \<and> transactionsReceivedCount (step plain (Resume 0 Continue) (run plain scenarioA constructor))
       = transactionsProcessedCount
           (step plain (Resume 0 Continue) (run plain scenarioA constructor))"
proof -
  have h: "list_all (\<lambda>a. a \<noteq> Cancel) (scenarioA @ [Resume 0 Continue])"
    by (simp add: scenarioA_def)
  have d: "done_flag (run plain (scenarioA @ [Resume 0 Continue]) constructor)"
    by code_simp
  have c: "\<not> cancelling (run plain scenarioA constructor)"
    "\<not> cancelled (run plain scenarioA constructor)"
    "terminals (run plain scenarioA constructor)
       < terminals (step plain (Resume 0 Continue) (run plain scenarioA constructor))"
    by code_simp+
  have 1: "\<not> cancelling (constructor\<lparr>receivedAllTransactions := True\<rparr>)
   \<and> \<not> cancelled (constructor\<lparr>receivedAllTransactions := True\<rparr>)
   \<and> \<not> list_ex (is_child 0) (tasks (constructor\<lparr>receivedAllTransactions := True\<rparr>))
   \<and> pushed (finish (constructor\<lparr>receivedAllTransactions := True\<rparr>)) = [None]
   \<and> pushed (parseTransactions (SignatureCount 3) (constructor\<lparr>receivedAllTransactions := True\<rparr>))
       = [Some (Forwarded (SignatureCount 3))]
   \<and> map_option pushed
       (resume plain (AwaitAll 0 False 0) Continue (constructor\<lparr>receivedAllTransactions := True\<rparr>))
       = Some [None]
   \<and> terminals (run plain (scenarioA @ [Resume 0 Continue]) constructor) = 1"
    using completion_check [where s = "constructor\<lparr>receivedAllTransactions := True\<rparr>"
                           and n = 3 and E = plain and fromEnd = False and m = 0 and pid = 0
                           and as = "scenarioA @ [Resume 0 Continue]"]
       h d
    by (simp add: constructor_def is_child_def)
  have 2: "receivedAllTransactions (step plain (Resume 0 Continue) (run plain scenarioA constructor))
   \<and> transactionsReceivedCount (step plain (Resume 0 Continue) (run plain scenarioA constructor))
       = transactionsProcessedCount
           (step plain (Resume 0 Continue) (run plain scenarioA constructor))"
    using completion_check [where s = "run plain scenarioA constructor" and E = plain
                           and a = "Resume 0 Continue", OF c(1,2)] c(3)
    by blast
  from 1 2 h d c show ?thesis
    by blast
qed

text \<open>
  C4. After \<open>cancel()\<close> no new finalize step starts, and a finalize step under way emits
  its record before the terminal signal. The code breaks this: a batch that was with the
  classifier when \<open>cancel()\<close> was called is still handled when the classifier resolves.
  Before that, no finalize step is under way; after it, the augmenter has been called
  for P1, and the record of P1 follows the terminal signal.
\<close>

theorem finalize_started_after_cancel:
  "cancelling (run plain (take 4 cancelThenAugment) constructor)
   \<and> tasks (run plain (take 4 cancelThenAugment) constructor) = [AwaitTransform False [1]]
   \<and> pendingPositions (run plain (take 4 cancelThenAugment) constructor) = []
   \<and> tasks (run plain cancelThenAugment constructor)
       = [AwaitUpdate 0 ''P1'' [openP1] \<lparr> isClosed = False, unrealized = None \<rparr>,
          AwaitAll 0 False 1]
   \<and> pendingPositions (run plain cancelThenAugment constructor) = [''P1'']
   \<and> pushed (run plain (cancelThenAugment
                @ [Resume 0 (Augmented \<lparr> isClosed = False, unrealized = Some 5 \<rparr>)]) constructor)
       = [Some (Forwarded (SignatureCount 1)), None,
          Some (PositionAndTransactions [openP1] \<lparr> isClosed = False, unrealized = Some 5 \<rparr>)]"
  by code_simp

text \<open>
  C5, as amended. The records handed to \<open>super.push\<close> plus the finalize steps still
  waiting for the augmenter never exceed the open transactions in the log, and equal
  them as long as no augmentation has rejected: one finalize step per classified
  transaction whose \<open>open\<close> is set, whatever its key. A batch drain with output appends
  the output to the log, pushes the running total and, for the open transactions of the
  output in their order, pushes the closed aggregates, starts the augmentations of the
  others and makes their keys pending. In every execution every record pushed was built
  from the transactions sharing the key of an open transaction of the log: a key without
  an open transaction gets none.
\<close>

theorem finalize_per_open_transaction:
  "int (length (filter is_record (pushed (run E as constructor))))
     + int (length (filter is_update (tasks (run E as constructor))))
     \<le> int (length (filter is_open (transactions (run E as constructor))))
   \<and> ((\<forall>a \<in> set as. \<not> is_rejection a) \<longrightarrow>
        length (filter is_record (pushed (run E as constructor)))
          + length (filter is_update (tasks (run E as constructor)))
          = length (filter is_open (transactions (run E as constructor))))
   \<and> (isClosed (newMeteoraPosition E (invertAndFillMissingFees E
          (filter (\<lambda>x. position x = position t) (transactions s)))) \<longrightarrow>
        pushed (createPosition E pid t s)
          = pushed s @ [Some (PositionAndTransactions
              (invertAndFillMissingFees E
                 (filter (\<lambda>x. position x = position t) (transactions s)))
              (newMeteoraPosition E (invertAndFillMissingFees E
                 (filter (\<lambda>x. position x = position t) (transactions s)))))])
   \<and> (0 < n \<and> out \<noteq> [] \<longrightarrow>
        transactions (processBatch_resume E fromEnd n out s) = transactions s @ out
        \<and> pushed (processBatch_resume E fromEnd n out s)
            = pushed (push (Some (TransactionCount (length (transactions s @ out)))) s)
                @ closed_records E (transactions s @ out) out
        \<and> tasks (processBatch_resume E fromEnd n out s)
            = tasks s @ augmentations E (nextId s) (transactions s @ out) out
                @ [AwaitAll (nextId s) fromEnd n]
        \<and> mset (pendingPositions (processBatch_resume E fromEnd n out s))
            = mset (pendingPositions s)
                + mset (task_keys (augmentations E (nextId s) (transactions s @ out) out)))
   \<and> (Some (PositionAndTransactions txs p) \<in> set (pushed (run E as constructor)) \<longrightarrow>
        (\<exists>m u. u \<in> set (take m (transactions (run E as constructor))) \<and> is_open u
           \<and> txs = invertAndFillMissingFees E
                     (filter (\<lambda>x. position x = position u)
                        (take m (transactions (run E as constructor))))))"
proof -
  have "isClosed (newMeteoraPosition E (invertAndFillMissingFees E
          (filter (\<lambda>x. position x = position t) (transactions s)))) \<longrightarrow>
        pushed (createPosition E pid t s)
          = pushed s @ [Some (PositionAndTransactions
              (invertAndFillMissingFees E
                 (filter (\<lambda>x. position x = position t) (transactions s)))
              (newMeteoraPosition E (invertAndFillMissingFees E
                 (filter (\<lambda>x. position x = position t) (transactions s)))))]"
    by (simp add: createPosition_def Let_def push_def)
  moreover have "0 < n \<and> out \<noteq> [] \<longrightarrow>
        transactions (processBatch_resume E fromEnd n out s) = transactions s @ out
        \<and> pushed (processBatch_resume E fromEnd n out s)
            = pushed (push (Some (TransactionCount (length (transactions s @ out)))) s)
                @ closed_records E (transactions s @ out) out
        \<and> tasks (processBatch_resume E fromEnd n out s)
            = tasks s @ augmentations E (nextId s) (transactions s @ out) out
                @ [AwaitAll (nextId s) fromEnd n]
        \<and> mset (pendingPositions (processBatch_resume E fromEnd n out s))
            = mset (pendingPositions s)
                + mset (task_keys (augmentations E (nextId s) (transactions s @ out) out))"
    using processBatch_resume_exact [of n out E fromEnd s]
      processBatch_resume_pending [of n out E fromEnd s]
    by blast
  moreover have "Some (PositionAndTransactions txs p) \<in> set (pushed (run E as constructor)) \<longrightarrow>
        (\<exists>m u. u \<in> set (take m (transactions (run E as constructor))) \<and> is_open u
           \<and> txs = invertAndFillMissingFees E
                     (filter (\<lambda>x. position x = position u)
                        (take m (transactions (run E as constructor)))))"
  proof
    assume a: "Some (PositionAndTransactions txs p) \<in> set (pushed (run E as constructor))"
    have "traced E (run E as constructor)"
      using traced_constructor by (rule traced_run)
    then have "record_ok E (transactions (run E as constructor))
                 (Some (PositionAndTransactions txs p))"
      using a by (auto simp: traced_def list_all_iff)
    then show "\<exists>m u. u \<in> set (take m (transactions (run E as constructor))) \<and> is_open u
           \<and> txs = invertAndFillMissingFees E
                     (filter (\<lambda>x. position x = position u)
                        (take m (transactions (run E as constructor))))"
      by (simp add: built_for_iff aggregate_def)
  qed
  moreover have "int (length (filter is_record (pushed (run E as constructor))))
     + int (length (filter is_update (tasks (run E as constructor))))
     \<le> int (length (filter is_open (transactions (run E as constructor))))
   \<and> ((\<forall>a \<in> set as. \<not> is_rejection a) \<longrightarrow>
        length (filter is_record (pushed (run E as constructor)))
          + length (filter is_update (tasks (run E as constructor)))
          = length (filter is_open (transactions (run E as constructor))))"
    using run_balance [OF constructor_covers, of E as] constructor_balance
    by (auto simp: balance_def)
  ultimately show ?thesis
    by blast
qed

theorem finalize_per_open_transaction_witness:
  "list_all (\<lambda>a. \<not> is_rejection a) scenarioB
   \<and> length (filter is_record (pushed (run plain scenarioB constructor)))
       + length (filter is_update (tasks (run plain scenarioB constructor)))
       = length (filter is_open (transactions (run plain scenarioB constructor)))
   \<and> length (filter is_open (transactions (run plain scenarioB constructor))) = 1
   \<and> isClosed (newMeteoraPosition plain (invertAndFillMissingFees plain
          (filter (\<lambda>x. position x = position openP1)
             (transactions (constructor\<lparr>transactions := [openP1, closeP1, depositP3]\<rparr>)))))
   \<and> pushed (createPosition plain 0 openP1
               (constructor\<lparr>transactions := [openP1, closeP1, depositP3]\<rparr>))
       = [Some (PositionAndTransactions [openP1, closeP1]
                  \<lparr> isClosed = True, unrealized = None \<rparr>)]
   \<and> pushed (processBatch_resume plain False 3 [depositP3, openP2, openP1, closeP1] constructor)
       = [Some (TransactionCount 4),
          Some (PositionAndTransactions [openP1, closeP1]
                  \<lparr> isClosed = True, unrealized = None \<rparr>)]
   \<and> tasks (processBatch_resume plain False 3 [depositP3, openP2, openP1, closeP1] constructor)
       = [AwaitPairs,
          AwaitUpdate 0 ''P2'' [openP2] \<lparr> isClosed = False, unrealized = None \<rparr>,
          AwaitAll 0 False 3]
   \<and> Some (PositionAndTransactions [openP1] \<lparr> isClosed = False, unrealized = Some 5 \<rparr>)
       \<in> set (pushed (run plain scenarioB constructor))
   \<and> (\<exists>m u. u \<in> set (take m (transactions (run plain scenarioB constructor))) \<and> is_open u
         \<and> [openP1] = invertAndFillMissingFees plain
                     (filter (\<lambda>x. position x = position u)
                        (take m (transactions (run plain scenarioB constructor)))))"
proof -
  have c: "isClosed (newMeteoraPosition plain (invertAndFillMissingFees plain
          (filter (\<lambda>x. position x = position openP1)
             (transactions (constructor\<lparr>transactions := [openP1, closeP1, depositP3]\<rparr>)))))"
    by (simp add: plain_def openP1_def closeP1_def depositP3_def constructor_def)
  have p: "pushed (constructor\<lparr>transactions := [openP1, closeP1, depositP3]\<rparr>) = []"
    "invertAndFillMissingFees plain
       (filter (\<lambda>x. position x = position openP1)
          (transactions (constructor\<lparr>transactions := [openP1, closeP1, depositP3]\<rparr>)))
     = [openP1, closeP1]"
    "newMeteoraPosition plain [openP1, closeP1] = \<lparr> isClosed = True, unrealized = None \<rparr>"
    by (simp_all add: plain_def openP1_def closeP1_def depositP3_def constructor_def)
  have h: "\<forall>a \<in> set scenarioB. \<not> is_rejection a"
    by (simp add: scenarioB_def is_rejection_def)
  have l: "length (filter is_open (transactions (run plain scenarioB constructor))) = 1"
    by code_simp
  have d: "(0::nat) < 3 \<and> [depositP3, openP2, openP1, closeP1] \<noteq> []"
    by simp
  have e: "pushed (push (Some (TransactionCount
              (length (transactions constructor @ [depositP3, openP2, openP1, closeP1]))))
              constructor)
             @ closed_records plain
                 (transactions constructor @ [depositP3, openP2, openP1, closeP1])
                 [depositP3, openP2, openP1, closeP1]
           = [Some (TransactionCount 4),
              Some (PositionAndTransactions [openP1, closeP1]
                      \<lparr> isClosed = True, unrealized = None \<rparr>)]"
    "tasks constructor
       @ augmentations plain (nextId constructor)
           (transactions constructor @ [depositP3, openP2, openP1, closeP1])
           [depositP3, openP2, openP1, closeP1]
       @ [AwaitAll (nextId constructor) False 3]
     = [AwaitPairs,
        AwaitUpdate 0 ''P2'' [openP2] \<lparr> isClosed = False, unrealized = None \<rparr>,
        AwaitAll 0 False 3]"
    by code_simp+
  have m: "Some (PositionAndTransactions [openP1] \<lparr> isClosed = False, unrealized = Some 5 \<rparr>)
       \<in> set (pushed (run plain scenarioB constructor))"
    by code_simp
  have 1: "length (filter is_record (pushed (run plain scenarioB constructor)))
       + length (filter is_update (tasks (run plain scenarioB constructor)))
       = length (filter is_open (transactions (run plain scenarioB constructor)))"
    using finalize_per_open_transaction [where E = plain and as = scenarioB] h by blast
  have 2: "pushed (createPosition plain 0 openP1
               (constructor\<lparr>transactions := [openP1, closeP1, depositP3]\<rparr>))
       = [Some (PositionAndTransactions [openP1, closeP1]
                  \<lparr> isClosed = True, unrealized = None \<rparr>)]"
    using finalize_per_open_transaction
         [where E = plain and t = openP1 and pid = 0
            and s = "constructor\<lparr>transactions := [openP1, closeP1, depositP3]\<rparr>"]
       c p
    by simp
  have "pushed (processBatch_resume plain False 3 [depositP3, openP2, openP1, closeP1]
                  constructor)
          = pushed (push (Some (TransactionCount
              (length (transactions constructor @ [depositP3, openP2, openP1, closeP1]))))
              constructor)
             @ closed_records plain
                 (transactions constructor @ [depositP3, openP2, openP1, closeP1])
                 [depositP3, openP2, openP1, closeP1]
        \<and> tasks (processBatch_resume plain False 3 [depositP3, openP2, openP1, closeP1]
                  constructor)
          = tasks constructor
             @ augmentations plain (nextId constructor)
                 (transactions constructor @ [depositP3, openP2, openP1, closeP1])
                 [depositP3, openP2, openP1, closeP1]
             @ [AwaitAll (nextId constructor) False 3]"
    using finalize_per_open_transaction
         [where E = plain and s = constructor and n = 3 and fromEnd = False
            and out = "[depositP3, openP2, openP1, closeP1]"]
       d
    by blast
  then have 3: "pushed (processBatch_resume plain False 3 [depositP3, openP2, openP1, closeP1]
                  constructor)
       = [Some (TransactionCount 4),
          Some (PositionAndTransactions [openP1, closeP1]
                  \<lparr> isClosed = True, unrealized = None \<rparr>)]
   \<and> tasks (processBatch_resume plain False 3 [depositP3, openP2, openP1, closeP1] constructor)
       = [AwaitPairs,
          AwaitUpdate 0 ''P2'' [openP2] \<lparr> isClosed = False, unrealized = None \<rparr>,
          AwaitAll 0 False 3]"
    using e by metis
  have 4: "\<exists>m u. u \<in> set (take m (transactions (run plain scenarioB constructor))) \<and> is_open u
         \<and> [openP1] = invertAndFillMissingFees plain
                     (filter (\<lambda>x. position x = position u)
                        (take m (transactions (run plain scenarioB constructor))))"
    using finalize_per_open_transaction
         [where E = plain and as = scenarioB
            and txs = "[openP1]" and p = "\<lparr> isClosed = False, unrealized = Some 5 \<rparr>"]
       m
    by blast
  have 5: "list_all (\<lambda>a. \<not> is_rejection a) scenarioB"
    using h by (simp add: list_all_iff)
  from 1 2 3 4 5 l c m show ?thesis
    by blast
qed

text \<open>
  C5 as stated fails: one position key among the classified transactions, no opening
  transaction, and the stream ends without any record.
\<close>

theorem no_emission_without_open_counterexample:
  "length (remdups (filter is_record (pushed (run plain noOpenTransaction constructor))))
     \<noteq> length (remdups (map position (transactions (run plain noOpenTransaction constructor))))
   \<and> map position (transactions (run plain noOpenTransaction constructor)) = [''P3'']
   \<and> filter is_record (pushed (run plain noOpenTransaction constructor)) = []
   \<and> tasks (run plain noOpenTransaction constructor) = []
   \<and> last (pushed (run plain noOpenTransaction constructor)) = None"
  by code_simp

text \<open>
  C6, as amended. For an aggregate that is not closed, \<open>_createPosition\<close> makes the key
  pending and calls the augmenter, emitting nothing; when the augmenter resolves, in any
  execution, the augmented record is handed to \<open>super.push\<close>; and no execution ever
  pushes an \<open>updatingOpenPositions\<close> record.
\<close>

theorem open_position_emission:
  "(\<not> isClosed (newMeteoraPosition E (invertAndFillMissingFees E
          (filter (\<lambda>x. position x = position t) (transactions s)))) \<longrightarrow>
      createPosition E pid t s
        = s\<lparr>pendingPositions := pendingPositions s @ [position t],
            tasks := tasks s @ [AwaitUpdate pid (position t)
               (invertAndFillMissingFees E
                  (filter (\<lambda>x. position x = position t) (transactions s)))
               (newMeteoraPosition E (invertAndFillMissingFees E
                  (filter (\<lambda>x. position x = position t) (transactions s))))]\<rparr>)
   \<and> (i < length (tasks (run E as constructor))
        \<and> tasks (run E as constructor) ! i = AwaitUpdate p k txs pos \<longrightarrow>
        pushed (step E (Resume i (Augmented pos')) (run E as constructor))
          = pushed (run E as constructor) @ [Some (PositionAndTransactions txs pos')])
   \<and> filter is_updating (pushed (run E as constructor)) = []"
proof -
  have "pending_covers (run E as constructor)"
    using constructor_covers by (rule run_covers)
  then have "i < length (tasks (run E as constructor))
        \<and> tasks (run E as constructor) ! i = AwaitUpdate p k txs pos \<longrightarrow>
        pushed (step E (Resume i (Augmented pos')) (run E as constructor))
          = pushed (run E as constructor) @ [Some (PositionAndTransactions txs pos')]"
    using covered_key [of "run E as constructor" i p k txs pos]
    by (auto simp: step_def push_pending)
  moreover have "filter is_updating (pushed (run E as constructor)) = []"
    by (simp add: run_updating) (simp add: constructor_def)
  ultimately show ?thesis
    by (simp add: createPosition_def Let_def spawn_def)
qed

theorem open_position_emission_witness:
  "\<not> isClosed (newMeteoraPosition plain (invertAndFillMissingFees plain
          (filter (\<lambda>x. position x = position openP1)
             (transactions (constructor\<lparr>transactions := [openP1]\<rparr>)))))
   \<and> tasks (createPosition plain 0 openP1 (constructor\<lparr>transactions := [openP1]\<rparr>))
       = [AwaitPairs, AwaitUpdate 0 ''P1'' [openP1] \<lparr> isClosed = False, unrealized = None \<rparr>]
   \<and> 0 < length (tasks (run plain (take 6 scenarioB) constructor))
   \<and> tasks (run plain (take 6 scenarioB) constructor) ! 0
       = AwaitUpdate 0 ''P1'' [openP1] \<lparr> isClosed = False, unrealized = None \<rparr>
   \<and> pushed (step plain (Resume 0 (Augmented \<lparr> isClosed = False, unrealized = Some 5 \<rparr>))
              (run plain (take 6 scenarioB) constructor))
       = pushed (run plain (take 6 scenarioB) constructor)
           @ [Some (PositionAndTransactions [openP1] \<lparr> isClosed = False, unrealized = Some 5 \<rparr>)]"
proof -
  have h1: "\<not> isClosed (newMeteoraPosition plain (invertAndFillMissingFees plain
          (filter (\<lambda>x. position x = position openP1)
             (transactions (constructor\<lparr>transactions := [openP1]\<rparr>)))))"
    by (simp add: plain_def openP1_def constructor_def)
  have h2: "0 < length (tasks (run plain (take 6 scenarioB) constructor))
     \<and> tasks (run plain (take 6 scenarioB) constructor) ! 0
       = AwaitUpdate 0 ''P1'' [openP1] \<lparr> isClosed = False, unrealized = None \<rparr>"
    by code_simp
  have t: "tasks (createPosition plain 0 openP1 (constructor\<lparr>transactions := [openP1]\<rparr>))
       = [AwaitPairs, AwaitUpdate 0 ''P1'' [openP1] \<lparr> isClosed = False, unrealized = None \<rparr>]"
    by code_simp
  from open_position_emission
         [where E = plain and t = openP1 and s = "constructor\<lparr>transactions := [openP1]\<rparr>"
            and i = 0 and as = "take 6 scenarioB" and p = 0 and k = "''P1''"
            and txs = "[openP1]" and pos = "\<lparr> isClosed = False, unrealized = None \<rparr>"
            and pos' = "\<lparr> isClosed = False, unrealized = Some 5 \<rparr>"]
       h1 h2 t
  show ?thesis by blast
qed

text \<open>
  C6 as stated fails: in scenario B the record of the open position is preceded by the
  running total only.
\<close>

theorem no_updating_event_counterexample:
  "pushed (run plain scenarioB constructor)
     = [Some (Forwarded (SignatureCount 1)), Some (Forwarded AllSignaturesFound),
        Some (TransactionCount 1),
        Some (PositionAndTransactions [openP1] \<lparr> isClosed = False, unrealized = Some 5 \<rparr>),
        None]
   \<and> filter is_updating (pushed (run plain scenarioB constructor)) = []"
  by code_simp

text \<open>
  C7. A rejecting classifier is to reach the listeners as an \<open>error\<close> event. The code
  forwards the \<open>error\<close> event of the source, but the rejection of the classifier rejects
  the promise of \<open>_processBatch\<close>, which no caller handles: nothing is emitted.
\<close>

theorem classifier_rejection_unhandled:
  "errorEvents (run plain classifierFails constructor) = []
   \<and> unhandled (run plain classifierFails constructor) = [Failure ''classifier'']
   \<and> errorEvents (run plain [Resume 0 PairsFetched, SourceError (Failure ''source'')] constructor)
       = [Failure ''source'']"
  by code_simp

text \<open>
  C8, as amended. Cancellation is finalized (rule 2 of the gate) only when nothing is
  pending; with a source that counts before it delivers, nothing is pending in the state
  in which any terminal signal is pushed; and two keys can be pending at once. A handler
  that pushes a terminal signal does so before it touches \<open>_pendingPositions\<close>, so the
  set at that moment is the one of the state the handler starts in.
\<close>

theorem pending_empty_at_terminal:
  "(cancelled (step E a s) \<and> \<not> cancelled s \<longrightarrow> pendingPositions s = [])
   \<and> (conforms E 0 (as @ [b]) constructor
        \<and> terminals (run E as constructor) < terminals (run E (as @ [b]) constructor) \<longrightarrow>
        pendingPositions (run E as constructor) = [])
   \<and> pendingPositions (run plain twoPending constructor) = [''P1'', ''P2'']"
proof -
  have "pendingPositions (run plain twoPending constructor) = [''P1'', ''P2'']"
    by code_simp
  moreover have "conforms E 0 (as @ [b]) constructor
        \<and> terminals (run E as constructor) < terminals (run E (as @ [b]) constructor) \<longrightarrow>
        pendingPositions (run E as constructor) = []"
    using run_terminal [OF constructor_settled, of E as b]
    by (simp add: constructor_def)
  ultimately show ?thesis
    using step_cancelled [of E a s] by blast
qed

theorem pending_empty_at_terminal_witness:
  "cancelled (step plain (SourceData (SignatureCount 1))
                (constructor\<lparr>transactionStream := Some True, cancelling := True\<rparr>))
   \<and> \<not> cancelled (constructor\<lparr>transactionStream := Some True, cancelling := True\<rparr>)
   \<and> pendingPositions (constructor\<lparr>transactionStream := Some True, cancelling := True\<rparr>) = []
   \<and> conforms plain 0 (scenarioA @ [Resume 0 Continue]) constructor
   \<and> terminals (run plain scenarioA constructor)
       < terminals (run plain (scenarioA @ [Resume 0 Continue]) constructor)
   \<and> pendingPositions (run plain scenarioA constructor) = []"
proof -
  have h1: "cancelled (step plain (SourceData (SignatureCount 1))
                (constructor\<lparr>transactionStream := Some True, cancelling := True\<rparr>))
     \<and> \<not> cancelled (constructor\<lparr>transactionStream := Some True, cancelling := True\<rparr>)"
    by code_simp
  have h2: "conforms plain 0 (scenarioA @ [Resume 0 Continue]) constructor"
    by code_simp
  have h3: "terminals (run plain scenarioA constructor)
       < terminals (run plain (scenarioA @ [Resume 0 Continue]) constructor)"
    by code_simp
  from pending_empty_at_terminal
         [where E = plain and a = "SourceData (SignatureCount 1)"
            and s = "constructor\<lparr>transactionStream := Some True, cancelling := True\<rparr>"
            and as = scenarioA and b = "Resume 0 Continue"]
       h1 h2 h3
  show ?thesis by blast
qed

text \<open>
  C8 as stated fails: a batch delivered before any count leaves both counters equal while
  P1 is being augmented, and \<open>allSignaturesFound\<close> then ends the stream through
  rule 1 of the gate.
\<close>

theorem terminal_while_pending_counterexample:
  "pushed (run plain endWhilePending constructor)
     = [Some (TransactionCount 1), Some (Forwarded AllSignaturesFound), None]
   \<and> pendingPositions (run plain endWhilePending constructor) = [''P1'']
   \<and> pendingPositions (run plain (butlast endWhilePending) constructor) = [''P1'']"
  by code_simp

text \<open>
  C9, as amended. With a source that counts before it delivers, the processed count
  never exceeds the received count; and in any execution \<open>_receivedAllTransactions\<close>, once
  set, stays set.
\<close>

theorem counters_invariant:
  "(conforms E 0 as constructor \<longrightarrow>
      transactionsProcessedCount (run E as constructor)
        \<le> transactionsReceivedCount (run E as constructor))
   \<and> (receivedAllTransactions (run E as s) \<longrightarrow> receivedAllTransactions (run E (as @ bs) s))"
proof -
  have "conforms E 0 as constructor \<longrightarrow>
      transactionsProcessedCount (run E as constructor)
        \<le> transactionsReceivedCount (run E as constructor)"
  proof
    assume "conforms E 0 as constructor"
    then obtain d where "settled (run E as constructor) d"
      "d \<le> transactionsReceivedCount (run E as constructor)"
      using run_settled [OF constructor_settled, of E as] by (auto simp: constructor_def)
    then show "transactionsProcessedCount (run E as constructor)
                 \<le> transactionsReceivedCount (run E as constructor)"
      using settled_processed [of "run E as constructor" d] by simp
  qed
  then show ?thesis
    by (simp add: run_append run_receivedAll)
qed

theorem counters_invariant_witness:
  "conforms plain 0 scenarioB constructor
   \<and> transactionsProcessedCount (run plain scenarioB constructor)
       \<le> transactionsReceivedCount (run plain scenarioB constructor)
   \<and> receivedAllTransactions (run plain (take 3 scenarioB) constructor)
   \<and> receivedAllTransactions (run plain (take 3 scenarioB @ drop 3 scenarioB) constructor)"
proof -
  have h1: "conforms plain 0 scenarioB constructor"
    by code_simp
  have h2: "receivedAllTransactions (run plain (take 3 scenarioB) constructor)"
    by code_simp
  from counters_invariant
         [where E = plain and as = scenarioB]
       counters_invariant
         [where E = plain and as = "take 3 scenarioB" and s = constructor
            and bs = "drop 3 scenarioB"]
       h1 h2
  show ?thesis by blast
qed

text \<open>
  C9 as stated fails: a batch of one transaction delivered before any count.
\<close>

theorem processed_exceeds_received_counterexample:
  "\<not> transactionsProcessedCount (run plain batchBeforeCount constructor)
       \<le> transactionsReceivedCount (run plain batchBeforeCount constructor)"
  by code_simp

text \<open>
  C10. Until \<open>_init\<close> has resumed from \<open>await getDlmmPairs()\<close>, \<open>cancel()\<close> throws a
  \<open>TypeError\<close> on the unassigned \<open>_transactionStream\<close> and \<open>_cancelling\<close> stays unset.
\<close>

theorem cancel_before_init:
  assumes "\<forall>a \<in> set as. \<forall>i. a \<noteq> Resume i PairsFetched"
  shows "cancel (run E as constructor) = Inl TypeError
         \<and> \<not> cancelling (run E (as @ [Cancel]) constructor)"
proof -
  have "transactionStream constructor = None" "\<not> cancelling constructor"
    by (simp_all add: constructor_def)
  with run_uninitialised [of constructor as E] assms
  have u: "transactionStream (run E as constructor) = None"
    "\<not> cancelling (run E as constructor)"
    by simp_all
  then have "cancel (run E as constructor) = Inl TypeError"
    by (simp add: cancel_def)
  then show ?thesis
    using u by (simp add: run_append) (simp add: run_def step_def)
qed

theorem cancel_before_init_witness:
  "list_all (\<lambda>a. \<forall>i. a \<noteq> Resume i PairsFetched) [SourceError TypeError, Cancel]
   \<and> cancel (run plain [SourceError TypeError, Cancel] constructor) = Inl TypeError
   \<and> \<not> cancelling (run plain ([SourceError TypeError, Cancel] @ [Cancel]) constructor)"
proof -
  have h: "\<forall>a \<in> set [SourceError TypeError, Cancel]. \<forall>i. a \<noteq> Resume i PairsFetched"
    by simp
  from cancel_before_init [OF h, of plain] show ?thesis by simp
qed

end
